theory Spec2Isabelle
  imports Complex_Main "HOL-Library.Word"
begin

unbundle bit_operations_syntax

section \<open>Geometry and the work queue of the encode manager\<close>

text \<open>
  Modelled from the spec: \<^verbatim>\<open>Rect.h\<close> is not among the sources. A rectangle is the pair
  of its top-left and bottom-right corners, half open, as the manager reads it
  (\<^verbatim>\<open>rect->tl.x\<close>, \<^verbatim>\<open>rect->br.y\<close>, ...); \<^verbatim>\<open>width()\<close>, \<^verbatim>\<open>height()\<close> and \<^verbatim>\<open>area()\<close> are the
  differences of the corners and their product. The C type
  \<^verbatim>\<open>int\<close> of the coordinates is modelled by \<^typ>\<open>int\<close>: for rectangles inside a
  framebuffer whose sides fit 16 bits, the only product the splitter computes
  (\<^verbatim>\<open>w*h\<close>) either stays below \<open>2^31\<close> or is irrelevant because \<^verbatim>\<open>w < SubRectMaxWidth\<close>
  is already false.
\<close>

record Rect =
  tl_x :: int
  tl_y :: int
  br_x :: int
  br_y :: int

definition width :: "Rect \<Rightarrow> int" where
  "width r = br_x r - tl_x r"

definition height :: "Rect \<Rightarrow> int" where
  "height r = br_y r - tl_y r"

definition area :: "Rect \<Rightarrow> int" where
  "area r = width r * height r"

text \<open>C's integer division truncates towards zero.\<close>

definition c_div :: "int \<Rightarrow> int \<Rightarrow> int" where
  "c_div a b = sgn a * sgn b * (\<bar>a\<bar> div \<bar>b\<bar>)"

definition SubRectMaxArea :: int where
  "SubRectMaxArea = 65536"

definition SubRectMaxWidth :: int where
  "SubRectMaxWidth = 2048"

text \<open>
  An entry of the work queue: the rectangle and the pixel buffer it is taken from (the
  connection parameters pointer is the same for every entry and is left out).
\<close>

record 'pb RectEntry =
  rect :: Rect
  pb :: 'pb

datatype EncoderType =
  encoderSolid | encoderBitmap | encoderBitmapRLE
  | encoderIndexed | encoderIndexedRLE | encoderFullColour

datatype EncoderClass =
  encoderRaw | encoderRRE | encoderHextile | encoderTight | encoderTightJPEG | encoderZRLE

record OutputEntry =
  out_rect :: Rect
  out_type :: EncoderType
  out_buffer :: "8 word list"

text \<open>
  What the connection's writer has been asked to write, in order: the calls of
  \<^verbatim>\<open>writeFramebufferUpdateStart\<close>, \<^verbatim>\<open>writeCopyRect\<close>, \<^verbatim>\<open>startRect\<close> (with the
  rectangle and the encoding number), the payload bytes, \<^verbatim>\<open>endRect\<close> and
  \<^verbatim>\<open>writeFramebufferUpdateEnd\<close>.
\<close>

datatype wire_event =
  FramebufferUpdateStart int
  | CopyRect Rect int int
  | StartRect Rect int
  | Payload "8 word list"
  | EndRect
  | FramebufferUpdateEnd

text \<open>
  The state of the manager that the update path reads and writes: the queues, the count of
  rectangles handed to the workers and not yet written, the class chosen for each role,
  and the output of the connection's writer. The statistics counters are left out.
\<close>

record 'pb EncodeManager =
  workQueue :: "'pb RectEntry list"
  outputQueue :: "OutputEntry list"
  rectCount :: int
  activeEncoders :: "EncoderType \<Rightarrow> EncoderClass"
  wire :: "wire_event list"

definition queueSubRect ::
  "Rect \<Rightarrow> 'pb \<Rightarrow> ('pb, 'z) EncodeManager_scheme \<Rightarrow> ('pb, 'z) EncodeManager_scheme" where
  "queueSubRect r p m =
     m\<lparr>workQueue := workQueue m @ [\<lparr>rect = r, pb = p\<rparr>], rectCount := rectCount m + 1\<rparr>"

subsection \<open>Splitting a rectangle (\<^verbatim>\<open>writeRects\<close>, before the flush)\<close>

text \<open>
  The inner loop \<^verbatim>\<open>for (sr.tl.x = rect->tl.x; sr.tl.x < rect->br.x; sr.tl.x += sw)\<close> with
  the row \<open>[ty, by)\<close> fixed by the outer loop. Neither loop makes progress when its
  step is not positive, so both are partial functions: \<open>None\<close> is not returning.
\<close>

partial_function (option) splitCols ::
  "'pb \<Rightarrow> Rect \<Rightarrow> int \<Rightarrow> int \<Rightarrow> int \<Rightarrow> int \<Rightarrow> 'pb EncodeManager \<Rightarrow> 'pb EncodeManager option"
where
  "splitCols p r sw ty by x m =
     (if x < br_x r then
        let bx = (if x + sw > br_x r then br_x r else x + sw)
        in splitCols p r sw ty by (x + sw)
             (queueSubRect \<lparr>tl_x = x, tl_y = ty, br_x = bx, br_y = by\<rparr> p m)
      else Some m)"

partial_function (option) splitRows ::
  "'pb \<Rightarrow> Rect \<Rightarrow> int \<Rightarrow> int \<Rightarrow> int \<Rightarrow> 'pb EncodeManager \<Rightarrow> 'pb EncodeManager option"
where
  "splitRows p r sw sh y m =
     (if y < br_y r then
        let by = (if y + sh > br_y r then br_y r else y + sh)
        in Option.bind (splitCols p r sw y by (tl_x r) m) (splitRows p r sw sh (y + sh))
      else Some m)"

text \<open>The body of the loop over the rectangles of the region.\<close>

definition splitRect :: "'pb \<Rightarrow> Rect \<Rightarrow> 'pb EncodeManager \<Rightarrow> 'pb EncodeManager option" where
  "splitRect p r m =
     (let w = width r; h = height r in
      if w * h < SubRectMaxArea \<and> w < SubRectMaxWidth then Some (queueSubRect r p m)
      else
        let sw = (if w \<le> SubRectMaxWidth then w else SubRectMaxWidth);
            sh = c_div SubRectMaxArea sw
        in splitRows p r sw sh (tl_y r) m)"

fun queueRects :: "'pb \<Rightarrow> Rect list \<Rightarrow> 'pb EncodeManager \<Rightarrow> 'pb EncodeManager option" where
  "queueRects p [] m = Some m"
| "queueRects p (r # rs) m = Option.bind (splitRect p r m) (queueRects p rs)"


text \<open>Pushing a list of rectangles of one pixel buffer, one \<^verbatim>\<open>queueSubRect\<close> each.\<close>

definition pushAll :: "'pb \<Rightarrow> Rect list \<Rightarrow> 'pb EncodeManager \<Rightarrow> 'pb EncodeManager" where
  "pushAll p rs m =
     m\<lparr>workQueue := workQueue m @ map (\<lambda>r. \<lparr>rect = r, pb = p\<rparr>) rs,
       rectCount := rectCount m + int (length rs)\<rparr>"

text \<open>
  The tiling as the specification words it: \<open>\<lceil>w/sw\<rceil> \<times> \<lceil>h/sh\<rceil>\<close> tiles of \<open>sw \<times> sh\<close> pixels,
  clipped to the rectangle, row by row.
\<close>

definition ceil_ratio :: "int \<Rightarrow> int \<Rightarrow> nat" where
  "ceil_ratio a b = nat \<lceil>real_of_int a / real_of_int b\<rceil>"

definition spec_tile :: "Rect \<Rightarrow> int \<Rightarrow> int \<Rightarrow> nat \<Rightarrow> nat \<Rightarrow> Rect" where
  "spec_tile r sw sh i j =
     \<lparr>tl_x = tl_x r + int j * sw, tl_y = tl_y r + int i * sh,
      br_x = min (tl_x r + (int j + 1) * sw) (br_x r),
      br_y = min (tl_y r + (int i + 1) * sh) (br_y r)\<rparr>"

definition spec_tiling :: "Rect \<Rightarrow> int \<Rightarrow> int \<Rightarrow> Rect list" where
  "spec_tiling r sw sh =
     concat (map (\<lambda>i. map (\<lambda>j. spec_tile r sw sh i j) [0..<ceil_ratio (width r) sw])
                 [0..<ceil_ratio (height r) sh])"

text \<open>The sub-rectangles one rectangle of the region contributes to the work queue.\<close>

definition subRects :: "Rect \<Rightarrow> Rect list" where
  "subRects r =
     (if width r * height r < SubRectMaxArea \<and> width r < SubRectMaxWidth then [r]
      else if 0 < height r
        then spec_tiling r (min (width r) SubRectMaxWidth)
               (SubRectMaxArea div min (width r) SubRectMaxWidth)
        else [])"

text \<open>
  The manager as its constructor leaves it: empty queues, \<^verbatim>\<open>rectCount(0)\<close>, every role
  served by the raw encoder.
\<close>

definition initManager :: "'pb EncodeManager" where
  "initManager =
     \<lparr>workQueue = [], outputQueue = [], rectCount = 0,
      activeEncoders = (\<lambda>t. encoderRaw), wire = []\<rparr>"

section \<open>The wire codec: streams, constants and handler calls\<close>

type_synonym byte = "8 word"
type_synonym U32 = "32 word"

text \<open>
  A raised \<^verbatim>\<open>Exception("...")\<close> carries its message. \<open>EndOfStream\<close> is a read past the
  end of the input, \<open>ZlibError\<close> a compressed block that does not inflate, and
  \<open>ArrayOverrun\<close> marks a read past the end of an array the caller passed in (undefined
  behaviour in the source).
\<close>

datatype error = Exception string | EndOfStream | ZlibError | ArrayOverrun

text \<open>
  Modelled from the spec: \<^verbatim>\<open>rdr::InStream\<close> and \<^verbatim>\<open>rdr::OutStream\<close> are not among the
  sources. An input stream is the list of the bytes still to be read, an output stream
  the list of the bytes written so far; a \<open>u32\<close> is four bytes, the most significant
  first, and \<^verbatim>\<open>pad\<close> writes zero bytes.
\<close>

definition is_skip :: "nat \<Rightarrow> byte list \<Rightarrow> error + byte list" where
  "is_skip n s = (if length s < n then Inl EndOfStream else Inr (drop n s))"

definition is_readU8 :: "byte list \<Rightarrow> error + (byte \<times> byte list)" where
  "is_readU8 s = (case s of [] \<Rightarrow> Inl EndOfStream | b # s' \<Rightarrow> Inr (b, s'))"

definition U32_of_bytes :: "byte \<Rightarrow> byte \<Rightarrow> byte \<Rightarrow> byte \<Rightarrow> U32" where
  "U32_of_bytes b0 b1 b2 b3 =
     push_bit 24 (ucast b0) OR push_bit 16 (ucast b1) OR push_bit 8 (ucast b2) OR ucast b3"

definition is_readU32 :: "byte list \<Rightarrow> error + (U32 \<times> byte list)" where
  "is_readU32 s =
     (case s of b0 # b1 # b2 # b3 # s' \<Rightarrow> Inr (U32_of_bytes b0 b1 b2 b3, s')
      | _ \<Rightarrow> Inl EndOfStream)"

definition is_readBytes :: "nat \<Rightarrow> byte list \<Rightarrow> error + (byte list \<times> byte list)" where
  "is_readBytes n s = (if length s < n then Inl EndOfStream else Inr (take n s, drop n s))"

definition bytes_of_U32 :: "U32 \<Rightarrow> byte list" where
  "bytes_of_U32 v = [ucast (drop_bit 24 v), ucast (drop_bit 16 v), ucast (drop_bit 8 v), ucast v]"

definition os_writeU8 :: "byte \<Rightarrow> byte list \<Rightarrow> byte list" where
  "os_writeU8 b os = os @ [b]"

definition os_pad :: "nat \<Rightarrow> byte list \<Rightarrow> byte list" where
  "os_pad n os = os @ replicate n 0"

definition os_writeU32 :: "U32 \<Rightarrow> byte list \<Rightarrow> byte list" where
  "os_writeU32 v os = os @ bytes_of_U32 v"

definition os_writeS32 :: "int \<Rightarrow> byte list \<Rightarrow> byte list" where
  "os_writeS32 i os = os @ bytes_of_U32 (word_of_int i)"

text \<open>
  \<^verbatim>\<open>writeBytes(data, len)\<close> copies \<open>len\<close> bytes from the caller's array; the caller
  passes at least that many.
\<close>

definition os_writeBytes :: "byte list \<Rightarrow> nat \<Rightarrow> byte list \<Rightarrow> byte list" where
  "os_writeBytes data len os = os @ take len data"

text \<open>
  The constants of \<^verbatim>\<open>clipboardTypes.h\<close>, \<^verbatim>\<open>fenceTypes.h\<close> and \<^verbatim>\<open>msgTypes.h\<close>, which are
  not among the sources, are parameters of the codec.
\<close>

record rfbConsts =
  clipboardActionMask :: U32
  clipboardCaps :: U32
  clipboardRequest :: U32
  clipboardPeek :: U32
  clipboardNotify :: U32
  clipboardProvide :: U32
  fenceFlagsSupported :: U32
  msgTypeClientFence :: byte
  msgTypeServerFence :: byte
  msgTypeClientCutText :: byte
  msgTypeServerCutText :: byte

text \<open>
  The values the RFB protocol and its extended clipboard extension give these constants
  (used for concrete runs only).
\<close>

definition rfbProtocol :: rfbConsts where
  "rfbProtocol =
     \<lparr>clipboardActionMask = 0xff000000, clipboardCaps = 0x01000000,
      clipboardRequest = 0x02000000, clipboardPeek = 0x04000000,
      clipboardNotify = 0x08000000, clipboardProvide = 0x10000000,
      fenceFlagsSupported = 0x80000007,
      msgTypeClientFence = 248, msgTypeServerFence = 248,
      msgTypeClientCutText = 6, msgTypeServerCutText = 3\<rparr>"

text \<open>
  The fields of \<^verbatim>\<open>ConnParams\<close> that the codec and the encode manager read
  (\<open>pf_bpp\<close> is \<^verbatim>\<open>cp.pf().bpp\<close>, \<open>subsamplingGray\<close> is \<^verbatim>\<open>cp.subsampling == subsampleGray\<close>).
\<close>

record ConnParams =
  supportsFence :: bool
  supportsExtendedClipboard :: bool
  clipboardFlags :: U32
  supportsLastRect :: bool
  compressLevel :: int
  pf_bpp :: int
  subsamplingGray :: bool

text \<open>The calls a reader makes on its \<^verbatim>\<open>MsgHandler\<close>, with their arguments.\<close>

datatype handler_call =
  Call_fence U32 nat "byte list"
  | Call_cutText "byte list" U32
  | Call_clipboardCaps U32 "U32 list"
  | Call_clipboardRequest U32
  | Call_clipboardPeek U32
  | Call_clipboardNotify U32
  | Call_clipboardProvide U32 "nat list" "byte list list"

text \<open>\<^verbatim>\<open>(size_t)maxCutText\<close>: the configured \<^verbatim>\<open>int\<close> read as an unsigned 64-bit size.\<close>

definition size_t_of_int :: "int \<Rightarrow> nat" where
  "size_t_of_int i = nat (i mod 2 ^ 64)"

subsection \<open>The reader (\<^verbatim>\<open>MsgReader\<close>)\<close>

text \<open>
  A reader returns the exception it raised, or the handler call it made (\<open>None\<close> when
  the message was dropped) with the input that is left. Every path of the source makes
  at most one handler call, as its last action.
\<close>

definition readFence :: "byte list \<Rightarrow> error + (handler_call option \<times> byte list)" where
  "readFence s =
     (case is_skip 3 s of Inl e \<Rightarrow> Inl e | Inr s1 \<Rightarrow>
      case is_readU32 s1 of Inl e \<Rightarrow> Inl e | Inr (flags, s2) \<Rightarrow>
      case is_readU8 s2 of Inl e \<Rightarrow> Inl e | Inr (len, s3) \<Rightarrow>
        if unat len > 64 then
          (case is_skip (unat len) s3 of Inl e \<Rightarrow> Inl e | Inr s4 \<Rightarrow> Inr (None, s4))
        else
          (case is_readBytes (unat len) s3 of Inl e \<Rightarrow> Inl e
           | Inr (data, s4) \<Rightarrow> Inr (Some (Call_fence flags (unat len) data), s4)))"

text \<open>
  The second loop of the \<^verbatim>\<open>Caps\<close> branch, \<^verbatim>\<open>for (i = 0;i < 16;i++)\<close>: one \<open>u32\<close> for
  each format bit that is set.
\<close>

fun readCapsLengths ::
  "nat list \<Rightarrow> U32 \<Rightarrow> U32 list \<Rightarrow> byte list \<Rightarrow> error + (U32 list \<times> byte list)" where
  "readCapsLengths [] flags lengths s = Inr (lengths, s)"
| "readCapsLengths (i # is) flags lengths s =
     (if flags AND push_bit i 1 \<noteq> 0 then
        (case is_readU32 s of Inl e \<Rightarrow> Inl e
         | Inr (l, s') \<Rightarrow> readCapsLengths is flags (lengths @ [l]) s')
      else readCapsLengths is flags lengths s)"

text \<open>
  The loop of the \<^verbatim>\<open>Provide\<close> branch over the inflated stream. A length above the
  maximum is skipped and its bit cleared without advancing \<^verbatim>\<open>num\<close>, so that the arrays
  handed to the handler hold the formats that are kept, in order.
\<close>

fun readProvideLoop ::
  "int \<Rightarrow> nat list \<Rightarrow> U32 \<Rightarrow> nat list \<Rightarrow> byte list list \<Rightarrow> byte list
     \<Rightarrow> error + (U32 \<times> nat list \<times> byte list list \<times> byte list)" where
  "readProvideLoop maxCutText [] flags lengths buffers zs = Inr (flags, lengths, buffers, zs)"
| "readProvideLoop maxCutText (i # is) flags lengths buffers zs =
     (if \<not> (flags AND push_bit i 1 \<noteq> 0) then
        readProvideLoop maxCutText is flags lengths buffers zs
      else
        case is_readU32 zs of Inl e \<Rightarrow> Inl e | Inr (l, zs1) \<Rightarrow>
          if unat l > size_t_of_int maxCutText then
            (case is_skip (unat l) zs1 of Inl e \<Rightarrow> Inl e
             | Inr zs2 \<Rightarrow>
                 readProvideLoop maxCutText is (flags AND NOT (push_bit i 1)) lengths buffers zs2)
          else
            (case is_readBytes (unat l) zs1 of Inl e \<Rightarrow> Inl e
             | Inr (buf, zs2) \<Rightarrow>
                 readProvideLoop maxCutText is flags (lengths @ [unat l]) (buffers @ [buf]) zs2))"

text \<open>
  Modelled from the spec: \<^verbatim>\<open>rdr::ZlibInStream\<close> is not among the sources. Between
  \<^verbatim>\<open>setUnderlying(is, n)\<close> and \<^verbatim>\<open>removeUnderlying()\<close> the stream is given the next \<open>n\<close> bytes
  of the input and serves what they inflate to; the input is left after those \<open>n\<close> bytes.
  The decompression itself is the parameter \<open>inflate\<close>, \<open>None\<close> on a corrupt block.
\<close>

definition zis_setUnderlying ::
  "(byte list \<Rightarrow> byte list option) \<Rightarrow> nat \<Rightarrow> byte list \<Rightarrow> error + (byte list \<times> byte list)"
where
  "zis_setUnderlying inflate n s =
     (case is_readBytes n s of Inl e \<Rightarrow> Inl e
      | Inr (zdata, s') \<Rightarrow>
          (case inflate zdata of None \<Rightarrow> Inl ZlibError | Some zs \<Rightarrow> Inr (zs, s')))"

text \<open>\<^verbatim>\<open>readExtendedClipboard(len)\<close>, with \<open>len\<close> the signed length after negation.\<close>

definition readExtendedClipboard ::
  "rfbConsts \<Rightarrow> (byte list \<Rightarrow> byte list option) \<Rightarrow> int \<Rightarrow> int \<Rightarrow> byte list
     \<Rightarrow> error + (handler_call option \<times> byte list)" where
  "readExtendedClipboard k inflate maxCutText len s =
     (if len < 4 then Inl (Exception ''Invalid extended clipboard message'')
      else if len > maxCutText then
        (case is_skip (nat len) s of Inl e \<Rightarrow> Inl e | Inr s' \<Rightarrow> Inr (None, s'))
      else
        case is_readU32 s of Inl e \<Rightarrow> Inl e | Inr (flags, s1) \<Rightarrow>
        let action = flags AND clipboardActionMask k in
        if action AND clipboardCaps k \<noteq> 0 then
          let num = length (filter (\<lambda>i. flags AND push_bit i 1 \<noteq> 0) [0..<16]) in
          if len < 4 + 4 * int num then Inl (Exception ''Invalid extended clipboard message'')
          else
            (case readCapsLengths [0..<16] flags [] s1 of Inl e \<Rightarrow> Inl e
             | Inr (lengths, s2) \<Rightarrow> Inr (Some (Call_clipboardCaps flags lengths), s2))
        else if action = clipboardProvide k then
          (case zis_setUnderlying inflate (nat (len - 4)) s1 of Inl e \<Rightarrow> Inl e
           | Inr (zs, s2) \<Rightarrow>
           case readProvideLoop maxCutText [0..<16] flags [] [] zs of Inl e \<Rightarrow> Inl e
           | Inr (flags', lengths, buffers, zs') \<Rightarrow>
               Inr (Some (Call_clipboardProvide flags' lengths buffers), s2))
        else if action = clipboardRequest k then Inr (Some (Call_clipboardRequest flags), s1)
        else if action = clipboardPeek k then Inr (Some (Call_clipboardPeek flags), s1)
        else if action = clipboardNotify k then Inr (Some (Call_clipboardNotify flags), s1)
        else Inl (Exception ''Invalid extended clipboard action''))"

text \<open>
  \<^verbatim>\<open>readCutText\<close>. \<^verbatim>\<open>slen = len; slen = -slen\<close> on a signed 32-bit value is the
  two's complement negation read as signed.
\<close>

definition readCutText ::
  "rfbConsts \<Rightarrow> (byte list \<Rightarrow> byte list option) \<Rightarrow> int \<Rightarrow> byte list
     \<Rightarrow> error + (handler_call option \<times> byte list)" where
  "readCutText k inflate maxCutText s =
     (case is_skip 3 s of Inl e \<Rightarrow> Inl e | Inr s1 \<Rightarrow>
      case is_readU32 s1 of Inl e \<Rightarrow> Inl e | Inr (len, s2) \<Rightarrow>
        if len AND 0x80000000 \<noteq> 0 then
          readExtendedClipboard k inflate maxCutText (sint (- len)) s2
        else if unat len > size_t_of_int maxCutText then
          (case is_skip (unat len) s2 of Inl e \<Rightarrow> Inl e | Inr s3 \<Rightarrow> Inr (None, s3))
        else
          (case is_readBytes (unat len) s2 of Inl e \<Rightarrow> Inl e
           | Inr (buf, s3) \<Rightarrow> Inr (Some (Call_cutText buf len), s3)))"

subsection \<open>The writer (\<^verbatim>\<open>MsgWriter\<close>)\<close>

text \<open>
  A writer returns the exception it raised, if any, and the output stream as it leaves
  it. \<^verbatim>\<open>startMsg\<close> writes the message type, \<^verbatim>\<open>endMsg\<close> flushes (the bytes do not change).
\<close>

definition startMsg :: "byte \<Rightarrow> byte list \<Rightarrow> byte list" where
  "startMsg type os = os_writeU8 type os"

definition endMsg :: "byte list \<Rightarrow> byte list" where
  "endMsg os = os"

definition writeFence ::
  "rfbConsts \<Rightarrow> ConnParams \<Rightarrow> bool \<Rightarrow> U32 \<Rightarrow> nat \<Rightarrow> byte list \<Rightarrow> byte list
     \<Rightarrow> error option \<times> byte list" where
  "writeFence k cp client flags len data os =
     (if \<not> supportsFence cp then (Some (Exception ''Peer does not support fences''), os)
      else if len > 64 then (Some (Exception ''Too large fence payload''), os)
      else if flags AND NOT (fenceFlagsSupported k) \<noteq> 0
        then (Some (Exception ''Unknown fence flags''), os)
      else
        (None,
         endMsg (os_writeBytes data len (os_writeU8 (of_nat len) (os_writeU32 flags
           (os_pad 3 (startMsg (if client then msgTypeClientFence k else msgTypeServerFence k)
              os)))))))"

definition writeCutText ::
  "rfbConsts \<Rightarrow> bool \<Rightarrow> byte list \<Rightarrow> U32 \<Rightarrow> byte list \<Rightarrow> error option \<times> byte list" where
  "writeCutText k client str len os =
     (None,
      endMsg (os_writeBytes str (unat len) (os_writeU32 len
        (os_pad 3 (startMsg (if client then msgTypeClientCutText k else msgTypeServerCutText k)
           os)))))"

text \<open>The second loop of \<^verbatim>\<open>writeClipboardCaps\<close>: \<^verbatim>\<open>os->writeU32(lengths[count++])\<close>.\<close>

fun writeCapsLengths ::
  "nat list \<Rightarrow> U32 \<Rightarrow> U32 list \<Rightarrow> byte list \<Rightarrow> error option \<times> byte list" where
  "writeCapsLengths [] caps lengths os = (None, os)"
| "writeCapsLengths (i # is) caps lengths os =
     (if caps AND push_bit i 1 \<noteq> 0 then
        (case lengths of [] \<Rightarrow> (Some ArrayOverrun, os)
         | l # ls \<Rightarrow> writeCapsLengths is caps ls (os_writeU32 l os))
      else writeCapsLengths is caps lengths os)"

definition writeClipboardCaps ::
  "rfbConsts \<Rightarrow> ConnParams \<Rightarrow> bool \<Rightarrow> U32 \<Rightarrow> U32 list \<Rightarrow> byte list
     \<Rightarrow> error option \<times> byte list" where
  "writeClipboardCaps k cp client caps lengths os =
     (if \<not> supportsExtendedClipboard cp
        then (Some (Exception ''Peer does not support extended clipboard''), os)
      else
        let count = length (filter (\<lambda>i. caps AND push_bit i 1 \<noteq> 0) [0..<16]);
            os1 = startMsg (if client then msgTypeClientCutText k else msgTypeServerCutText k) os;
            os2 = os_pad 3 os1;
            os3 = os_writeS32 (- (4 + 4 * int count)) os2;
            os4 = os_writeU32 (caps OR clipboardCaps k) os3
        in case writeCapsLengths [0..<16] caps lengths os4 of
             (Some e, os5) \<Rightarrow> (Some e, os5)
           | (None, os5) \<Rightarrow> (None, endMsg os5))"

text \<open>The three actions without payload share one shape.\<close>

definition writeClipboardRequest ::
  "rfbConsts \<Rightarrow> ConnParams \<Rightarrow> bool \<Rightarrow> U32 \<Rightarrow> byte list \<Rightarrow> error option \<times> byte list" where
  "writeClipboardRequest k cp client flags os =
     (if \<not> supportsExtendedClipboard cp
        then (Some (Exception ''Peer does not support extended clipboard''), os)
      else if \<not> (clipboardFlags cp AND clipboardRequest k \<noteq> 0)
        then (Some (Exception ''Peer does not support clipboard \"request\" action''), os)
      else
        (None,
         endMsg (os_writeU32 (flags OR clipboardRequest k) (os_writeS32 (- 4)
           (os_pad 3 (startMsg (if client then msgTypeClientCutText k else msgTypeServerCutText k)
              os))))))"

definition writeClipboardPeek ::
  "rfbConsts \<Rightarrow> ConnParams \<Rightarrow> bool \<Rightarrow> U32 \<Rightarrow> byte list \<Rightarrow> error option \<times> byte list" where
  "writeClipboardPeek k cp client flags os =
     (if \<not> supportsExtendedClipboard cp
        then (Some (Exception ''Peer does not support extended clipboard''), os)
      else if \<not> (clipboardFlags cp AND clipboardPeek k \<noteq> 0)
        then (Some (Exception ''Peer does not support clipboard \"peek\" action''), os)
      else
        (None,
         endMsg (os_writeU32 (flags OR clipboardPeek k) (os_writeS32 (- 4)
           (os_pad 3 (startMsg (if client then msgTypeClientCutText k else msgTypeServerCutText k)
              os))))))"

definition writeClipboardNotify ::
  "rfbConsts \<Rightarrow> ConnParams \<Rightarrow> bool \<Rightarrow> U32 \<Rightarrow> byte list \<Rightarrow> error option \<times> byte list" where
  "writeClipboardNotify k cp client flags os =
     (if \<not> supportsExtendedClipboard cp
        then (Some (Exception ''Peer does not support extended clipboard''), os)
      else if \<not> (clipboardFlags cp AND clipboardNotify k \<noteq> 0)
        then (Some (Exception ''Peer does not support clipboard \"notify\" action''), os)
      else
        (None,
         endMsg (os_writeU32 (flags OR clipboardNotify k) (os_writeS32 (- 4)
           (os_pad 3 (startMsg (if client then msgTypeClientCutText k else msgTypeServerCutText k)
              os))))))"

text \<open>
  The loop of \<^verbatim>\<open>writeClipboardProvide\<close> into the compressing stream: for each format bit,
  \<^verbatim>\<open>zos.writeU32(lengths[count]); zos.writeBytes(data[count], lengths[count])\<close>.
\<close>

fun writeProvideLoop ::
  "nat list \<Rightarrow> U32 \<Rightarrow> nat list \<Rightarrow> byte list list \<Rightarrow> byte list \<Rightarrow> error option \<times> byte list"
where
  "writeProvideLoop [] flags lengths data zos = (None, zos)"
| "writeProvideLoop (i # is) flags lengths data zos =
     (if \<not> (flags AND push_bit i 1 \<noteq> 0) then writeProvideLoop is flags lengths data zos
      else
        case (lengths, data) of
          (l # ls, d # ds) \<Rightarrow>
            writeProvideLoop is flags ls ds (os_writeBytes d l (os_writeU32 (of_nat l) zos))
        | _ \<Rightarrow> (Some ArrayOverrun, zos))"

text \<open>
  \<^verbatim>\<open>writeClipboardProvide\<close>. \<^verbatim>\<open>rdr::ZlibOutStream\<close> is not among the sources and is a
  parameter: \<open>deflate\<close> gives, for the bytes written to it, what it leaves in the memory
  stream once flushed.
\<close>

definition writeClipboardProvide ::
  "rfbConsts \<Rightarrow> (byte list \<Rightarrow> byte list) \<Rightarrow> ConnParams \<Rightarrow> bool \<Rightarrow> U32 \<Rightarrow> nat list
     \<Rightarrow> byte list list \<Rightarrow> byte list \<Rightarrow> error option \<times> byte list" where
  "writeClipboardProvide k deflate cp client flags lengths data os =
     (if \<not> supportsExtendedClipboard cp
        then (Some (Exception ''Peer does not support extended clipboard''), os)
      else if \<not> (clipboardFlags cp AND clipboardProvide k \<noteq> 0)
        then (Some (Exception ''Peer does not support clipboard \"provide\" action''), os)
      else
        case writeProvideLoop [0..<16] flags lengths data [] of
          (Some e, zos) \<Rightarrow> (Some e, os)
        | (None, zos) \<Rightarrow>
            let mos = deflate zos in
            (None,
             endMsg (os_writeBytes mos (length mos) (os_writeU32 (flags OR clipboardProvide k)
               (os_writeS32 (- (4 + int (length mos)))
                 (os_pad 3 (startMsg (if client then msgTypeClientCutText k
                                      else msgTypeServerCutText k) os)))))))"

subsection \<open>The extended clipboard data, as the specification words it\<close>

text \<open>
  The inflated stream of a \<^verbatim>\<open>Provide\<close> message: for each format bit that is set, in
  ascending order, a \<open>u32\<close> length and that many bytes. \<open>payload i\<close> is the data of
  format \<open>i\<close>.
\<close>

definition provide_stream :: "nat list \<Rightarrow> U32 \<Rightarrow> (nat \<Rightarrow> byte list) \<Rightarrow> byte list" where
  "provide_stream is flags payload =
     concat (map (\<lambda>i. bytes_of_U32 (of_nat (length (payload i))) @ payload i)
                 (filter (bit flags) is))"

text \<open>The formats that are delivered: those set in the flags whose data is not too long.\<close>

definition provide_kept :: "int \<Rightarrow> nat list \<Rightarrow> U32 \<Rightarrow> (nat \<Rightarrow> byte list) \<Rightarrow> nat list" where
  "provide_kept maxCutText is flags payload =
     filter (\<lambda>i. bit flags i \<and> int (length (payload i)) \<le> maxCutText) is"

text \<open>The flags with the bit of every oversized format cleared, format by format.\<close>

fun clearOversized :: "int \<Rightarrow> (nat \<Rightarrow> byte list) \<Rightarrow> nat list \<Rightarrow> U32 \<Rightarrow> U32" where
  "clearOversized maxCutText payload [] f = f"
| "clearOversized maxCutText payload (i # is) f =
     (if bit f i \<and> maxCutText < int (length (payload i))
      then clearOversized maxCutText payload is (f AND NOT (push_bit i 1))
      else clearOversized maxCutText payload is f)"

subsection \<open>Concrete peers and streams\<close>

text \<open>
  A peer with the extended clipboard whose advertised flags hold the actions request, peek,
  notify and provide and the format UTF-8, but not the \<^verbatim>\<open>Caps\<close> bit; and a peer with
  fences only.
\<close>

definition peerWithoutCapsBit :: ConnParams where
  "peerWithoutCapsBit =
     \<lparr>supportsFence = False, supportsExtendedClipboard = True,
      clipboardFlags = 0x1E000001, supportsLastRect = False, compressLevel = 2,
      pf_bpp = 32, subsamplingGray = False\<rparr>"

definition peerWithFence :: ConnParams where
  "peerWithFence =
     \<lparr>supportsFence = True, supportsExtendedClipboard = False,
      clipboardFlags = 0, supportsLastRect = False, compressLevel = 2,
      pf_bpp = 32, subsamplingGray = False\<rparr>"

text \<open>
  A small run-length decoder standing in for zlib in concrete runs: pairs of a count and
  a byte.
\<close>

fun rle_inflate :: "byte list \<Rightarrow> byte list option" where
  "rle_inflate [] = Some []"
| "rle_inflate [n] = None"
| "rle_inflate (n # b # zs) =
     (case rle_inflate zs of None \<Rightarrow> None | Some s \<Rightarrow> Some (replicate (unat n) b @ s))"

text \<open>Two formats: 21 bytes for format 0 and the two bytes of "hi" for format 1.\<close>

definition twoFormats :: "nat \<Rightarrow> byte list" where
  "twoFormats i = (if i = 0 then replicate 21 0x41 else if i = 1 then [104, 105] else [])"

section \<open>The encode manager: encoders and the rectangle analyser\<close>

text \<open>
  The encoder classes are not among the sources. Of an encoder the manager reads the
  encoding number, the two flags \<^verbatim>\<open>EncoderUseNativePF\<close> and \<^verbatim>\<open>EncoderOrdered\<close>, and the
  largest palette it takes (an \<^verbatim>\<open>unsigned int\<close>).
\<close>

record Encoder =
  encoding :: int
  useNativePF :: bool
  ordered :: bool
  maxPaletteSize :: U32

text \<open>
  A prepared entry: the pixel buffer made by \<^verbatim>\<open>preparePixelBuffer(rect, pb, cp, convert)\<close>
  (kept as its three arguments), the role chosen and the palette.
\<close>

record ('pb, 'c) PreparedEntry =
  prep_rect :: Rect
  prep_pb :: 'pb
  prep_convert :: bool
  prep_type :: EncoderType
  prep_palette :: "'c list"

text \<open>
  \<^verbatim>\<open>prepareRect\<close>. The per-depth \<^verbatim>\<open>analyseRect\<close> of \<^verbatim>\<open>EncodeManagerBPP.cxx\<close> is not among
  the sources and is a parameter: for the converted pixel buffer of the rectangle and
  the colour limit it returns its success flag, the run count it stores in \<^verbatim>\<open>rleRuns\<close>
  and the palette it built. \<^verbatim>\<open>divisor\<close> and \<^verbatim>\<open>maxColours\<close> are \<^verbatim>\<open>unsigned int\<close>.
\<close>

definition prepareRect_maxColours ::
  "(EncoderClass \<Rightarrow> Encoder) \<Rightarrow> (EncoderType \<Rightarrow> EncoderClass) \<Rightarrow> ConnParams \<Rightarrow> Rect \<Rightarrow> U32"
where
  "prepareRect_maxColours encoders active cp r =
     (let divisor0 = (if compressLevel cp = - 1 then 2 * 8
                      else word_of_int (compressLevel cp * 8)) :: U32;
          divisor = (if divisor0 < 4 then 4 else divisor0);
          maxColours0 = word_of_int (area r) div divisor;
          maxColours1 =
            (if active encoderFullColour = encoderTightJPEG then
               (if compressLevel cp \<noteq> - 1 \<and> compressLevel cp < 2 then 24 else 96)
             else maxColours0);
          maxColours2 = (if maxColours1 < 2 then 2 else maxColours1);
          maxColours3 =
            (if maxColours2 > maxPaletteSize (encoders (active encoderIndexedRLE))
             then maxPaletteSize (encoders (active encoderIndexedRLE)) else maxColours2)
      in if maxColours3 > maxPaletteSize (encoders (active encoderIndexed))
         then maxPaletteSize (encoders (active encoderIndexed)) else maxColours3)"

definition prepareRect ::
  "(EncoderClass \<Rightarrow> Encoder) \<Rightarrow> (EncoderType \<Rightarrow> EncoderClass)
     \<Rightarrow> ('pb \<Rightarrow> Rect \<Rightarrow> int \<Rightarrow> bool \<times> int \<times> 'c list)
     \<Rightarrow> ConnParams \<Rightarrow> Rect \<Rightarrow> 'pb \<Rightarrow> ('pb, 'c) PreparedEntry" where
  "prepareRect encoders active analyseRect cp r p =
     (let maxColours = prepareRect_maxColours encoders active cp r;
          (ok, rleRuns, colours) = analyseRect p r (sint maxColours);
          palette = (if \<not> ok then [] else colours);
          useRLE = (rleRuns \<le> area r * 2);
          type =
            (case length palette of
               0 \<Rightarrow> encoderFullColour
             | Suc 0 \<Rightarrow> encoderSolid
             | Suc (Suc 0) \<Rightarrow> (if useRLE then encoderBitmapRLE else encoderBitmap)
             | _ \<Rightarrow> (if useRLE then encoderIndexedRLE else encoderIndexed))
      in \<lparr>prep_rect = r, prep_pb = p,
          prep_convert = (\<not> useNativePF (encoders (active type))),
          prep_type = type, prep_palette = palette\<rparr>)"

text \<open>
  Concrete encoders for runs of the model: the six classes with the palette limits and
  flags of the TigerVNC encoders (Tight 256 colours, ZRLE 127, no limit elsewhere; Tight
  and ZRLE compress into one stream and are ordered, Tight JPEG takes the native format).
\<close>

definition stockEncoders :: "EncoderClass \<Rightarrow> Encoder" where
  "stockEncoders c =
     (case c of
        encoderRaw \<Rightarrow> \<lparr>encoding = 0, useNativePF = False, ordered = False, maxPaletteSize = - 1\<rparr>
      | encoderRRE \<Rightarrow> \<lparr>encoding = 2, useNativePF = False, ordered = False, maxPaletteSize = - 1\<rparr>
      | encoderHextile \<Rightarrow>
          \<lparr>encoding = 5, useNativePF = False, ordered = False, maxPaletteSize = - 1\<rparr>
      | encoderTight \<Rightarrow> \<lparr>encoding = 7, useNativePF = False, ordered = True, maxPaletteSize = 256\<rparr>
      | encoderTightJPEG \<Rightarrow>
          \<lparr>encoding = 7, useNativePF = True, ordered = False, maxPaletteSize = - 1\<rparr>
      | encoderZRLE \<Rightarrow> \<lparr>encoding = 16, useNativePF = False, ordered = True, maxPaletteSize = 127\<rparr>)"

text \<open>
  A peer with compression level 2, every role served by ZRLE, and what the analysis
  reports for a rectangle of vertical stripes, one pixel wide, in two colours: a palette
  of two and one run for each pixel of the rectangle.
\<close>

definition allZRLE :: "EncoderType \<Rightarrow> EncoderClass" where
  "allZRLE t = encoderZRLE"

definition stripesAnalysis :: "unit \<Rightarrow> Rect \<Rightarrow> int \<Rightarrow> bool \<times> int \<times> U32 list" where
  "stripesAnalysis p r maxColours = (True, area r, [0, 0xffffff])"

definition plainPeer :: ConnParams where
  "plainPeer =
     \<lparr>supportsFence = False, supportsExtendedClipboard = False, clipboardFlags = 0,
      supportsLastRect = False, compressLevel = 2,
      pf_bpp = 32, subsamplingGray = False\<rparr>"

section \<open>The encode manager: one update\<close>

text \<open>
  What the manager uses from its connection and from classes that are not among the
  sources: the connection parameters and the preferred encoding; of each encoder its
  fields, \<^verbatim>\<open>isSupported(conn->cp)\<close> and the bytes \<^verbatim>\<open>writeRect\<close> produces; the analysis of a
  rectangle; the rectangle of a prepared pixel buffer (\<^verbatim>\<open>pb->getRect()\<close>); of a region
  (\<^verbatim>\<open>Region\<close>, a union of rectangles) its \<^verbatim>\<open>numRects()\<close> and its enumeration
  \<^verbatim>\<open>get_rects(&rects, left2right, topdown)\<close>. \<^verbatim>\<open>writeSolidRects\<close> rests on the per-depth
  \<^verbatim>\<open>checkSolidTile\<close> and on the subtraction of regions, which are not among the sources
  either: it is taken as a whole, returning the region that is left and the manager
  after the solid rectangles it wrote. It runs only for a peer with \<^verbatim>\<open>LastRect\<close>.
\<close>

record ('pb, 'rg, 'c) Env =
  conn_cp :: ConnParams
  getPreferredEncoding :: int
  encoders :: "EncoderClass \<Rightarrow> Encoder"
  isSupported :: "EncoderClass \<Rightarrow> bool"
  analyseRect :: "'pb \<Rightarrow> Rect \<Rightarrow> int \<Rightarrow> bool \<times> int \<times> 'c list"
  writeRect :: "EncoderClass \<Rightarrow> ('pb, 'c) PreparedEntry \<Rightarrow> byte list"
  getRect :: "('pb, 'c) PreparedEntry \<Rightarrow> Rect"
  numRects :: "'rg \<Rightarrow> int"
  get_rects :: "'rg \<Rightarrow> bool \<Rightarrow> bool \<Rightarrow> Rect list"
  writeSolidRects :: "'rg \<Rightarrow> 'pb \<Rightarrow> 'pb EncodeManager \<Rightarrow> 'rg \<times> 'pb EncodeManager"


definition encodingZRLE :: int where "encodingZRLE = 16"





text \<open>
  \<^verbatim>\<open>startRect\<close>, the payload and \<^verbatim>\<open>endRect\<close>, as the drain loop of \<^verbatim>\<open>flush\<close> calls them
  for one output entry.
\<close>

definition writeOutput ::
  "('pb, 'rg, 'c) Env \<Rightarrow> OutputEntry \<Rightarrow> ('pb, 'z) EncodeManager_scheme
     \<Rightarrow> ('pb, 'z) EncodeManager_scheme" where
  "writeOutput env out m =
     m\<lparr>wire := wire m @
          [StartRect (out_rect out) (encoding (encoders env (activeEncoders m (out_type out)))),
           Payload (out_buffer out), EndRect]\<rparr>"

text \<open>\<^verbatim>\<open>encodeRect\<close>: the encoder of the role writes the prepared entry into a fresh buffer.\<close>

definition encodeRect ::
  "('pb, 'rg, 'c) Env \<Rightarrow> (EncoderType \<Rightarrow> EncoderClass) \<Rightarrow> ('pb, 'c) PreparedEntry \<Rightarrow> OutputEntry"
where
  "encodeRect env active prep =
     \<lparr>out_rect = getRect env prep, out_type = prep_type prep,
      out_buffer = writeRect env (active (prep_type prep)) prep\<rparr>"













section \<open>The encode manager: the worker threads\<close>

text \<open>
  Where a worker thread stands between two sections that hold the queue mutex: at the
  head of its loop; analysing the entry it popped (\<^verbatim>\<open>prepareRect\<close>, outside the mutex);
  encoding the head of the queue of an ordered class that it owns; encoding an entry of
  a class that is not ordered.
\<close>

datatype ('pb, 'c) WorkerState =
  Idle
  | Analysing "'pb RectEntry"
  | EncodingOrdered EncoderClass "('pb, 'c) PreparedEntry"
  | EncodingPlain "('pb, 'c) PreparedEntry"

text \<open>
  The manager with its threads: the per-class queues of the ordered encoders and the
  state of each worker. Three history fields record, in order, the entries pushed onto the
  work queue, the prepared entries pushed onto the queue of each class
  (\<^verbatim>\<open>encoderQueue[klass].push_back(prep)\<close>), and, for each class, the prepared entries that a
  worker has started to encode with the encoder of that class, on either branch of
  \<^verbatim>\<open>worker()\<close>; no step reads them.
\<close>

record ('pb, 'c) ThreadedManager = "'pb EncodeManager" +
  encoderQueue :: "EncoderClass \<Rightarrow> ('pb, 'c) PreparedEntry list"
  workers :: "nat \<Rightarrow> ('pb, 'c) WorkerState"
  workPushed :: "'pb RectEntry list"
  classQueued :: "EncoderClass \<Rightarrow> ('pb, 'c) PreparedEntry list"
  classEncoded :: "EncoderClass \<Rightarrow> ('pb, 'c) PreparedEntry list"

text \<open>
  One step is one section under the queue mutex, together with the work done outside the
  mutex just before it (the analysis or the encoding, which touch no shared state):
  \<^item> the driver queues a sub-rectangle (\<^verbatim>\<open>queueSubRect\<close>);
  \<^item> a worker at the head of its loop pops the work queue;
  \<^item> a worker has analysed its entry, the class is ordered and its queue is not empty:
    the entry is queued behind the others and the worker goes back to the head of its loop;
  \<^item> the same with an empty queue: the worker owns the queue and starts to encode its entry;
  \<^item> a worker has analysed its entry and the class is not ordered: it starts to encode;
  \<^item> the owner of a queue has encoded its head: it pops it, puts the result on the output
    queue and starts on the next entry, or leaves the queue when it is empty;
  \<^item> a worker has encoded an entry of a class that is not ordered;
  \<^item> the driver, in \<^verbatim>\<open>flush\<close>, takes the head of the output queue and writes it.
\<close>

inductive step ::
  "('pb, 'rg, 'c) Env \<Rightarrow> ('pb, 'c) ThreadedManager \<Rightarrow> ('pb, 'c) ThreadedManager \<Rightarrow> bool"
  for env :: "('pb, 'rg, 'c) Env"
where
  driver_queue:
    "step env s ((queueSubRect r p s)\<lparr>workPushed := workPushed s @ [\<lparr>rect = r, pb = p\<rparr>]\<rparr>)"
| worker_pop:
    "workers s t = Idle \<Longrightarrow> workQueue s = e # es \<Longrightarrow>
     step env s (s\<lparr>workQueue := es, workers := (workers s)(t := Analysing e)\<rparr>)"
| worker_queue_behind:
    "workers s t = Analysing e \<Longrightarrow>
     prep = prepareRect (encoders env) (activeEncoders s) (analyseRect env) (conn_cp env)
              (rect e) (pb e) \<Longrightarrow>
     klass = activeEncoders s (prep_type prep) \<Longrightarrow>
     ordered (encoders env klass) \<Longrightarrow>
     encoderQueue s klass \<noteq> [] \<Longrightarrow>
     step env s
       (s\<lparr>encoderQueue := (encoderQueue s)(klass := encoderQueue s klass @ [prep]),
          workers := (workers s)(t := Idle),
          classQueued := (classQueued s)(klass := classQueued s klass @ [prep])\<rparr>)"
| worker_own:
    "workers s t = Analysing e \<Longrightarrow>
     prep = prepareRect (encoders env) (activeEncoders s) (analyseRect env) (conn_cp env)
              (rect e) (pb e) \<Longrightarrow>
     klass = activeEncoders s (prep_type prep) \<Longrightarrow>
     ordered (encoders env klass) \<Longrightarrow>
     encoderQueue s klass = [] \<Longrightarrow>
     step env s
       (s\<lparr>encoderQueue := (encoderQueue s)(klass := [prep]),
          workers := (workers s)(t := EncodingOrdered klass prep),
          classQueued := (classQueued s)(klass := classQueued s klass @ [prep]),
          classEncoded := (classEncoded s)(klass := classEncoded s klass @ [prep])\<rparr>)"
| worker_plain:
    "workers s t = Analysing e \<Longrightarrow>
     prep = prepareRect (encoders env) (activeEncoders s) (analyseRect env) (conn_cp env)
              (rect e) (pb e) \<Longrightarrow>
     klass = activeEncoders s (prep_type prep) \<Longrightarrow>
     \<not> ordered (encoders env klass) \<Longrightarrow>
     step env s
       (s\<lparr>workers := (workers s)(t := EncodingPlain prep),
          classEncoded := (classEncoded s)(klass := classEncoded s klass @ [prep])\<rparr>)"
| owner_next:
    "workers s t = EncodingOrdered klass prep \<Longrightarrow>
     encoderQueue s klass = q # nxt # rest \<Longrightarrow>
     step env s
       (s\<lparr>outputQueue := outputQueue s @ [encodeRect env (activeEncoders s) prep],
          encoderQueue := (encoderQueue s)(klass := nxt # rest),
          workers := (workers s)(t := EncodingOrdered klass nxt),
          classEncoded := (classEncoded s)(klass := classEncoded s klass @ [nxt])\<rparr>)"
| owner_leave:
    "workers s t = EncodingOrdered klass prep \<Longrightarrow>
     encoderQueue s klass = [q] \<Longrightarrow>
     step env s
       (s\<lparr>outputQueue := outputQueue s @ [encodeRect env (activeEncoders s) prep],
          encoderQueue := (encoderQueue s)(klass := []),
          workers := (workers s)(t := Idle)\<rparr>)"
| worker_plain_done:
    "workers s t = EncodingPlain prep \<Longrightarrow>
     step env s
       (s\<lparr>outputQueue := outputQueue s @ [encodeRect env (activeEncoders s) prep],
          workers := (workers s)(t := Idle)\<rparr>)"
| driver_drain:
    "0 < rectCount s \<Longrightarrow> outputQueue s = out # outs \<Longrightarrow>
     step env s ((writeOutput env out (s\<lparr>outputQueue := outs\<rparr>))\<lparr>rectCount := rectCount s - 1\<rparr>)"

text \<open>
  The manager between two updates: nothing queued, every worker at the head of its loop.
\<close>

definition idleManager :: "(EncoderType \<Rightarrow> EncoderClass) \<Rightarrow> ('pb, 'c) ThreadedManager" where
  "idleManager active =
     \<lparr>workQueue = [], outputQueue = [], rectCount = 0, activeEncoders = active, wire = [],
      encoderQueue = (\<lambda>k. []), workers = (\<lambda>t. Idle), workPushed = [],
      classQueued = (\<lambda>k. []), classEncoded = (\<lambda>k. [])\<rparr>"

text \<open>
  The class a worker is encoding for: \<^verbatim>\<open>encodeRect\<close> runs the encoder of the role of the
  prepared entry, \<^verbatim>\<open>activeEncoders[prep->type]\<close>, on the ordered branch and on the plain one.
\<close>

definition encodesFor :: "('pb, 'c) ThreadedManager \<Rightarrow> nat \<Rightarrow> EncoderClass \<Rightarrow> bool" where
  "encodesFor s t k =
     (case workers s t of
        Idle \<Rightarrow> False
      | Analysing e \<Rightarrow> False
      | EncodingOrdered klass p \<Rightarrow> activeEncoders s (prep_type p) = k
      | EncodingPlain p \<Rightarrow> activeEncoders s (prep_type p) = k)"

text \<open>
  What holds at every moment for the queue of an ordered class: a worker that encodes
  from the queue holds its head and is the only one; a queue that is not empty has such a
  worker; and what has been started, followed by the queue without its head, is what has
  been queued.
\<close>

definition classInvariant :: "('pb, 'c) ThreadedManager \<Rightarrow> EncoderClass \<Rightarrow> bool" where
  "classInvariant s k =
     ((\<forall>t p. workers s t = EncodingOrdered k p \<longrightarrow>
          (\<exists>rest. encoderQueue s k = p # rest)
          \<and> (\<forall>t' p'. workers s t' = EncodingOrdered k p' \<longrightarrow> t' = t))
      \<and> (\<forall>q rest. encoderQueue s k = q # rest \<longrightarrow> (\<exists>t. workers s t = EncodingOrdered k q))
      \<and> classEncoded s k @ tl (encoderQueue s k) = classQueued s k)"

text \<open>
  What holds at every moment for the roles: the table of active encoders does not change
  while the workers run; an entry on the plain branch is of a class that is not ordered;
  the entries on the queue of a class, and the entry its owner encodes, are of that class.
\<close>

definition rolesInvariant ::
  "('pb, 'rg, 'c) Env \<Rightarrow> (EncoderType \<Rightarrow> EncoderClass) \<Rightarrow> ('pb, 'c) ThreadedManager \<Rightarrow> bool"
where
  "rolesInvariant env active s =
     (activeEncoders s = active
      \<and> (\<forall>t p. workers s t = EncodingPlain p \<longrightarrow>
             \<not> ordered (encoders env (active (prep_type p))))
      \<and> (\<forall>t k p. workers s t = EncodingOrdered k p \<longrightarrow> active (prep_type p) = k)
      \<and> (\<forall>k p. p \<in> set (encoderQueue s k) \<longrightarrow> active (prep_type p) = k))"

subsection \<open>Concrete runs of the manager\<close>

text \<open>
  A connection for runs of the model: the peer above, ZRLE preferred, every encoder
  supported, empty payloads, regions as lists of rectangles enumerated as they are, and no
  solid rectangle found.
\<close>

definition demoEnv :: "(unit, Rect list, U32) Env" where
  "demoEnv =
     \<lparr>conn_cp = plainPeer, getPreferredEncoding = encodingZRLE, encoders = stockEncoders,
      isSupported = (\<lambda>c. True), analyseRect = stripesAnalysis,
      writeRect = (\<lambda>c prep. []), getRect = prep_rect,
      numRects = (\<lambda>rg. int (length rg)), get_rects = (\<lambda>rg left2right topdown. rg),
      writeSolidRects = (\<lambda>rg p m. (rg, m))\<rparr>"



text \<open>
  Two rectangles, and a run of two workers on them. The driver queues \<open>rectA\<close>, then
  \<open>rectB\<close>; worker 0 pops \<open>rectA\<close> and worker 1 pops \<open>rectB\<close>; worker 1 is the first to finish
  its analysis, finds the queue of ZRLE empty and owns it; worker 0 queues its entry
  behind; worker 1 finishes \<open>rectB\<close> and goes on with \<open>rectA\<close>.
\<close>

definition rectA :: Rect where
  "rectA = \<lparr>tl_x = 0, tl_y = 0, br_x = 4, br_y = 4\<rparr>"

definition rectB :: Rect where
  "rectB = \<lparr>tl_x = 4, tl_y = 0, br_x = 8, br_y = 4\<rparr>"

definition prepOf :: "Rect \<Rightarrow> (unit, U32) PreparedEntry" where
  "prepOf r = prepareRect stockEncoders allZRLE stripesAnalysis plainPeer r ()"

definition invertedRun :: "(unit, U32) ThreadedManager list" where
  "invertedRun =
     (let s0 = idleManager allZRLE;
          s1 = (queueSubRect rectA () s0)\<lparr>workPushed := workPushed s0 @ [\<lparr>rect = rectA, pb = ()\<rparr>]\<rparr>;
          s2 = (queueSubRect rectB () s1)\<lparr>workPushed := workPushed s1 @ [\<lparr>rect = rectB, pb = ()\<rparr>]\<rparr>;
          s3 = s2\<lparr>workQueue := [\<lparr>rect = rectB, pb = ()\<rparr>],
                 workers := (workers s2)(0 := Analysing \<lparr>rect = rectA, pb = ()\<rparr>)\<rparr>;
          s4 = s3\<lparr>workQueue := [],
                 workers := (workers s3)(1 := Analysing \<lparr>rect = rectB, pb = ()\<rparr>)\<rparr>;
          s5 = s4\<lparr>encoderQueue := (encoderQueue s4)(encoderZRLE := [prepOf rectB]),
                 workers := (workers s4)(1 := EncodingOrdered encoderZRLE (prepOf rectB)),
                 classQueued := (classQueued s4)
                   (encoderZRLE := classQueued s4 encoderZRLE @ [prepOf rectB]),
                 classEncoded := (classEncoded s4)
                   (encoderZRLE := classEncoded s4 encoderZRLE @ [prepOf rectB])\<rparr>;
          s6 = s5\<lparr>encoderQueue := (encoderQueue s5)
                   (encoderZRLE := encoderQueue s5 encoderZRLE @ [prepOf rectA]),
                 workers := (workers s5)(0 := Idle),
                 classQueued := (classQueued s5)
                   (encoderZRLE := classQueued s5 encoderZRLE @ [prepOf rectA])\<rparr>;
          s7 = s6\<lparr>outputQueue := outputQueue s6 @ [encodeRect demoEnv (activeEncoders s6) (prepOf rectB)],
                 encoderQueue := (encoderQueue s6)(encoderZRLE := [prepOf rectA]),
                 workers := (workers s6)(1 := EncodingOrdered encoderZRLE (prepOf rectA)),
                 classEncoded := (classEncoded s6)
                   (encoderZRLE := classEncoded s6 encoderZRLE @ [prepOf rectA])\<rparr>
      in [s0, s1, s2, s3, s4, s5, s6, s7])"

section \<open>The splitter: helper facts\<close>

lemma pushAll_Nil: "pushAll p [] m = m"
  by (simp add: pushAll_def)

lemma pushAll_queue: "pushAll p rs (queueSubRect r p m) = pushAll p (r # rs) m"
  by (simp add: pushAll_def queueSubRect_def)

lemma pushAll_append: "pushAll p ss (pushAll p rs m) = pushAll p (rs @ ss) m"
  by (simp add: pushAll_def)

lemma ceil_ratio_le0: "0 < b \<Longrightarrow> a \<le> 0 \<Longrightarrow> ceil_ratio a b = 0"
  by (simp add: ceil_ratio_def divide_nonpos_pos)

lemma ceil_ratio_step:
  assumes "0 < b" "0 < a"
  shows "ceil_ratio a b = Suc (ceil_ratio (a - b) b)"
proof -
  have e: "real_of_int (a - b) / real_of_int b = real_of_int a / real_of_int b - 1"
    using assms by (simp add: field_simps)
  have "0 < real_of_int a / real_of_int b" using assms by simp
  then have "1 \<le> \<lceil>real_of_int a / real_of_int b\<rceil>" by linarith
  then show ?thesis unfolding ceil_ratio_def e by (simp add: nat_diff_distrib' Suc_nat_eq_nat_zadd1)
qed

lemma splitCols_tiles:
  assumes "0 < sw"
  shows "splitCols p r sw ty by x m =
         Some (pushAll p (map (\<lambda>j. \<lparr>tl_x = x + int j * sw, tl_y = ty,
                                    br_x = min (x + (int j + 1) * sw) (br_x r), br_y = by\<rparr>)
                              [0..<ceil_ratio (br_x r - x) sw]) m)"
proof (induction "ceil_ratio (br_x r - x) sw" arbitrary: x m)
  case 0
  have "\<not> x < br_x r"
  proof
    assume "x < br_x r"
    then have "ceil_ratio (br_x r - x) sw = Suc (ceil_ratio (br_x r - x - sw) sw)"
      using assms by (intro ceil_ratio_step) auto
    with 0 show False by simp
  qed
  then show ?case using 0 [symmetric] by (subst splitCols.simps) (simp add: pushAll_Nil)
next
  case (Suc n)
  have lt: "x < br_x r"
  proof (rule ccontr)
    assume "\<not> x < br_x r"
    then have "ceil_ratio (br_x r - x) sw = 0" using assms by (intro ceil_ratio_le0) auto
    with Suc(2) show False by simp
  qed
  then have st: "ceil_ratio (br_x r - x) sw = Suc (ceil_ratio (br_x r - (x + sw)) sw)"
    using assms ceil_ratio_step [of sw "br_x r - x"] by (simp add: algebra_simps)
  with Suc(2) have n: "n = ceil_ratio (br_x r - (x + sw)) sw" by simp
  let ?f = "\<lambda>x j. \<lparr>tl_x = x + int j * sw, tl_y = ty,
                    br_x = min (x + (int j + 1) * sw) (br_x r), br_y = by\<rparr>"
  let ?t = "\<lparr>tl_x = x, tl_y = ty,
            br_x = (if x + sw > br_x r then br_x r else x + sw), br_y = by\<rparr>"
  have IH: "splitCols p r sw ty by (x + sw) (queueSubRect ?t p m) =
            Some (pushAll p (map (?f (x + sw)) [0..<n]) (queueSubRect ?t p m))"
    using Suc.hyps(1) [OF n] n by simp
  have l: "map (?f x) [0..<Suc n] = ?t # map (?f (x + sw)) [0..<n]"
    by (simp add: map_upt_Suc min_def algebra_simps del: upt_Suc)
  have "splitCols p r sw ty by x m = splitCols p r sw ty by (x + sw) (queueSubRect ?t p m)"
    by (subst splitCols.simps) (simp add: lt Let_def)
  also have "\<dots> = Some (pushAll p (map (?f x) [0..<Suc n]) m)"
    unfolding IH l pushAll_queue ..
  finally show ?case unfolding st n [symmetric] .
qed

lemma splitRows_tiles:
  assumes "0 < sw" "0 < sh"
  shows "splitRows p r sw sh y m =
         Some (pushAll p (concat (map (\<lambda>i. map (\<lambda>j. \<lparr>tl_x = tl_x r + int j * sw, tl_y = y + int i * sh,
                                    br_x = min (tl_x r + (int j + 1) * sw) (br_x r),
                                    br_y = min (y + (int i + 1) * sh) (br_y r)\<rparr>)
                              [0..<ceil_ratio (width r) sw]) [0..<ceil_ratio (br_y r - y) sh])) m)"
proof (induction "ceil_ratio (br_y r - y) sh" arbitrary: y m)
  case 0
  have "\<not> y < br_y r"
  proof
    assume "y < br_y r"
    then have "ceil_ratio (br_y r - y) sh = Suc (ceil_ratio (br_y r - y - sh) sh)"
      using assms by (intro ceil_ratio_step) auto
    with 0 show False by simp
  qed
  then show ?case using 0 [symmetric] by (subst splitRows.simps) (simp add: pushAll_Nil)
next
  case (Suc n)
  have lt: "y < br_y r"
  proof (rule ccontr)
    assume "\<not> y < br_y r"
    then have "ceil_ratio (br_y r - y) sh = 0" using assms by (intro ceil_ratio_le0) auto
    with Suc(2) show False by simp
  qed
  then have st: "ceil_ratio (br_y r - y) sh = Suc (ceil_ratio (br_y r - (y + sh)) sh)"
    using assms ceil_ratio_step [of sh "br_y r - y"] by (simp add: algebra_simps)
  with Suc(2) have n: "n = ceil_ratio (br_y r - (y + sh)) sh" by simp
  let ?g = "\<lambda>y i. map (\<lambda>j. \<lparr>tl_x = tl_x r + int j * sw, tl_y = y + int i * sh,
                    br_x = min (tl_x r + (int j + 1) * sw) (br_x r),
                    br_y = min (y + (int i + 1) * sh) (br_y r)\<rparr>) [0..<ceil_ratio (width r) sw]"
  let ?by = "if y + sh > br_y r then br_y r else y + sh"
  have row: "splitCols p r sw y ?by (tl_x r) m = Some (pushAll p (?g y 0) m)"
    unfolding splitCols_tiles [OF assms(1)] by (simp add: width_def min_def algebra_simps)
  have IH: "splitRows p r sw sh (y + sh) (pushAll p (?g y 0) m) =
            Some (pushAll p (concat (map (?g (y + sh)) [0..<n])) (pushAll p (?g y 0) m))"
    using Suc.hyps(1) [OF n] n by simp
  have l: "map (?g y) [0..<Suc n] = ?g y 0 # map (?g (y + sh)) [0..<n]"
    by (simp add: map_upt_Suc algebra_simps del: upt_Suc)
  have "splitRows p r sw sh y m = splitRows p r sw sh (y + sh) (pushAll p (?g y 0) m)"
    by (subst splitRows.simps) (simp only: lt if_True Let_def row Option.bind.simps)
  also have "\<dots> = Some (pushAll p (concat (map (?g y) [0..<Suc n])) m)"
    unfolding IH l pushAll_append by simp
  finally show ?case unfolding st n [symmetric] .
qed

lemma c_div_pos: "0 \<le> a \<Longrightarrow> 0 < b \<Longrightarrow> c_div a b = a div b"
  by (simp add: c_div_def sgn_if)

lemma split_width_pos:
  assumes "\<not> (w * h < SubRectMaxArea \<and> w < SubRectMaxWidth)" "0 < h"
  shows "0 < (w::int)"
proof (rule ccontr)
  assume "\<not> 0 < w"
  then have w: "w \<le> 0" by simp
  then have "w * h \<le> 0" using assms(2) by (simp add: mult_nonpos_nonneg)
  with w assms(1) show False by (simp add: SubRectMaxArea_def SubRectMaxWidth_def)
qed

lemma split_height_pos:
  assumes "0 < (sw::int)" "sw \<le> SubRectMaxWidth"
  shows "0 < SubRectMaxArea div sw"
  using assms by (simp add: SubRectMaxArea_def SubRectMaxWidth_def pos_imp_zdiv_pos_iff)

lemma splitRect_subRects: "splitRect p r m = Some (pushAll p (subRects r) m)"
proof (cases "width r * height r < SubRectMaxArea \<and> width r < SubRectMaxWidth")
  case True
  then show ?thesis
    by (simp add: splitRect_def subRects_def pushAll_def queueSubRect_def)
next
  case False
  let ?sw = "min (width r) SubRectMaxWidth"
  have sw: "(if width r \<le> SubRectMaxWidth then width r else SubRectMaxWidth) = ?sw"
    by (simp add: min_def)
  have eq: "splitRect p r m = splitRows p r ?sw (c_div SubRectMaxArea ?sw) (tl_y r) m"
    by (simp only: splitRect_def Let_def sw False if_False)
  show ?thesis
  proof (cases "0 < height r")
    case True
    then have w: "0 < width r" using False split_width_pos by blast
    then have swp: "0 < ?sw" by (simp add: SubRectMaxWidth_def)
    then have shp: "0 < SubRectMaxArea div ?sw" by (intro split_height_pos) auto
    have cd: "c_div SubRectMaxArea ?sw = SubRectMaxArea div ?sw"
      using swp by (intro c_div_pos) (auto simp: SubRectMaxArea_def)
    have hh: "br_y r - tl_y r = height r" by (simp add: height_def)
    have sr: "subRects r = spec_tiling r ?sw (SubRectMaxArea div ?sw)"
      by (simp only: subRects_def False if_False True if_True)
    show ?thesis
      unfolding eq cd splitRows_tiles [OF swp shp] sr
      by (simp add: spec_tiling_def spec_tile_def hh)
  next
    case h: False
    then have "\<not> tl_y r < br_y r" by (simp add: height_def)
    then have "splitRows p r ?sw (c_div SubRectMaxArea ?sw) (tl_y r) m = Some m"
      by (subst splitRows.simps) simp
    moreover have "subRects r = []"
      by (simp only: subRects_def False if_False h)
    ultimately show ?thesis by (simp add: eq pushAll_Nil)
  qed
qed

lemma queueRects_subRects:
  "queueRects p rs m = Some (pushAll p (concat (map subRects rs)) m)"
  by (induction rs arbitrary: m) (simp_all add: pushAll_Nil splitRect_subRects pushAll_append)

lemma length_spec_tiling:
  "length (spec_tiling r sw sh) = ceil_ratio (width r) sw * ceil_ratio (height r) sh"
  by (simp add: spec_tiling_def length_concat comp_def sum_list_triv)

lemma ceil_ratio_less:
  assumes "0 < b" "j < ceil_ratio a b"
  shows "int j * b < a"
proof -
  from assms(2) have "int j < \<lceil>real_of_int a / real_of_int b\<rceil>"
    by (simp add: ceil_ratio_def)
  then have "real_of_int (int j) < real_of_int a / real_of_int b"
    by (simp only: less_ceiling_iff)
  then have "real_of_int (int j) * real_of_int b < real_of_int a"
    using assms(1) by (simp add: pos_less_divide_eq)
  then have "real_of_int (int j * b) < real_of_int a" by simp
  then show ?thesis by (simp only: of_int_less_iff)
qed

lemma spec_tile_bounds:
  assumes "0 < sw" "0 < sh" "i < ceil_ratio (height r) sh" "j < ceil_ratio (width r) sw"
  shows "0 < width (spec_tile r sw sh i j) \<and> width (spec_tile r sw sh i j) \<le> sw
       \<and> 0 < height (spec_tile r sw sh i j) \<and> height (spec_tile r sw sh i j) \<le> sh"
proof -
  have "int j * sw < width r" "int i * sh < height r"
    using assms ceil_ratio_less by blast+
  then show ?thesis
    using assms(1,2) by (simp add: spec_tile_def width_def height_def min_def algebra_simps)
qed

lemma spec_tiling_bounds:
  assumes "0 < sw" "0 < sh" "s \<in> set (spec_tiling r sw sh)"
  shows "area s \<le> sw * sh \<and> width s \<le> sw"
proof -
  from assms(3) obtain i j where ij: "i < ceil_ratio (height r) sh" "j < ceil_ratio (width r) sw"
      and s: "s = spec_tile r sw sh i j"
    by (auto simp: spec_tiling_def)
  from spec_tile_bounds [OF assms(1,2) ij]
  have b: "0 < width s" "width s \<le> sw" "0 < height s" "height s \<le> sh"
    by (simp_all add: s)
  then have "width s * height s \<le> sw * sh"
    by (intro mult_mono) auto
  with b show ?thesis by (simp add: area_def)
qed

lemma subRects_bounds:
  assumes "s \<in> set (subRects r)"
  shows "area s \<le> SubRectMaxArea \<and> width s \<le> SubRectMaxWidth"
proof (cases "width r * height r < SubRectMaxArea \<and> width r < SubRectMaxWidth")
  case True
  then have "subRects r = [r]" by (simp add: subRects_def)
  with assms True show ?thesis by (simp add: area_def)
next
  case False
  show ?thesis
  proof (cases "0 < height r")
    case True
    let ?sw = "min (width r) SubRectMaxWidth"
    have sr: "subRects r = spec_tiling r ?sw (SubRectMaxArea div ?sw)"
      by (simp only: subRects_def False if_False True if_True)
    have w: "0 < width r" using False True split_width_pos by blast
    then have swp: "0 < ?sw" by (simp add: SubRectMaxWidth_def)
    then have shp: "0 < SubRectMaxArea div ?sw" by (intro split_height_pos) auto
    have "?sw * (SubRectMaxArea div ?sw) \<le> SubRectMaxArea"
      using swp mult_div_mod_eq [of ?sw SubRectMaxArea] pos_mod_sign [of ?sw SubRectMaxArea]
      by linarith
    moreover have "?sw \<le> SubRectMaxWidth" by simp
    ultimately show ?thesis
      using spec_tiling_bounds [OF swp shp, of s r] assms sr by auto
  next
    case h: False
    have "subRects r = []" by (simp only: subRects_def False if_False h)
    with assms show ?thesis by simp
  qed
qed

lemma subRects_4096_1024:
  "subRects \<lparr>tl_x = 0, tl_y = 0, br_x = 4096, br_y = 1024\<rparr> =
   spec_tiling \<lparr>tl_x = 0, tl_y = 0, br_x = 4096, br_y = 1024\<rparr> 2048 32"
  by (simp add: subRects_def width_def height_def SubRectMaxArea_def SubRectMaxWidth_def)

lemma ceil_ratio_one:
  assumes "0 < a" "a \<le> b"
  shows "ceil_ratio a b = 1"
proof -
  have b: "0 < b" using assms by linarith
  have "\<lceil>real_of_int a / real_of_int b\<rceil> = 1"
  proof (rule ceiling_unique)
    show "real_of_int 1 - 1 < real_of_int a / real_of_int b" using assms b by simp
    show "real_of_int a / real_of_int b \<le> real_of_int 1" using assms b by simp
  qed
  then show ?thesis by (simp add: ceil_ratio_def)
qed

lemma ceil_ratio_one_le:
  assumes "0 < b" "ceil_ratio a b = 1"
  shows "a \<le> b"
proof (rule ccontr)
  assume n: "\<not> a \<le> b"
  have "real_of_int 1 < real_of_int a / real_of_int b"
    using n assms(1) by (simp add: pos_less_divide_eq)
  then have "1 < \<lceil>real_of_int a / real_of_int b\<rceil>" by (simp only: less_ceiling_iff)
  then have "1 < ceil_ratio a b" by (simp add: ceil_ratio_def)
  with assms(2) show False by simp
qed

lemma le_div_iff_mult:
  assumes "0 < (w::int)"
  shows "(h \<le> c div w) = (w * h \<le> c)"
proof
  assume "h \<le> c div w"
  then have "w * h \<le> w * (c div w)" using assms by (simp add: mult_left_mono)
  also have "w * (c div w) \<le> c"
    using assms mult_div_mod_eq [of w c] pos_mod_sign [of w c] by linarith
  finally show "w * h \<le> c" .
next
  assume "w * h \<le> c"
  then have "(w * h) div w \<le> c div w" using assms by (rule zdiv_mono1)
  then show "h \<le> c div w" using assms by simp
qed

lemma spec_tiling_one:
  assumes "0 < width r" "0 < height r" "width r \<le> sw" "height r \<le> sh"
  shows "spec_tiling r sw sh = [r]"
proof -
  have c: "ceil_ratio (width r) sw = 1" "ceil_ratio (height r) sh = 1"
    using assms by (simp_all add: ceil_ratio_one)
  have "spec_tile r sw sh 0 0 = r"
    using assms by (simp add: spec_tile_def width_def height_def min_def)
  then show ?thesis by (simp add: spec_tiling_def c)
qed

lemma spec_tiling_one_iff:
  assumes "0 < width r" "0 < height r" "0 < sw" "0 < sh"
  shows "(spec_tiling r sw sh = [r]) = (width r \<le> sw \<and> height r \<le> sh)"
proof
  assume "spec_tiling r sw sh = [r]"
  then have "length (spec_tiling r sw sh) = 1" by simp
  then have "ceil_ratio (width r) sw * ceil_ratio (height r) sh = 1"
    by (simp only: length_spec_tiling)
  then have "ceil_ratio (width r) sw = 1" "ceil_ratio (height r) sh = 1" by simp_all
  then show "width r \<le> sw \<and> height r \<le> sh"
    using assms(3,4) ceil_ratio_one_le by blast
next
  assume "width r \<le> sw \<and> height r \<le> sh"
  then show "spec_tiling r sw sh = [r]" using assms(1,2) by (simp add: spec_tiling_one)
qed

lemma subRects_intact:
  assumes "0 < width r" "0 < height r"
  shows "(subRects r = [r]) = (width r * height r \<le> 65536 \<and> width r \<le> 2048)"
proof (cases "width r * height r < SubRectMaxArea \<and> width r < SubRectMaxWidth")
  case True
  then have "subRects r = [r]" by (simp add: subRects_def)
  with True show ?thesis by (simp add: SubRectMaxArea_def SubRectMaxWidth_def)
next
  case False
  let ?sw = "min (width r) 2048"
  have "subRects r = spec_tiling r (min (width r) SubRectMaxWidth)
                      (SubRectMaxArea div min (width r) SubRectMaxWidth)"
    by (simp only: subRects_def False if_False assms(2) if_True)
  then have sr: "subRects r = spec_tiling r ?sw (65536 div ?sw)"
    by (simp only: SubRectMaxArea_def SubRectMaxWidth_def)
  have swp: "0 < ?sw" using assms(1) by simp
  have "32 \<le> 65536 div ?sw"
  proof -
    have "65536 div (2048::int) \<le> 65536 div ?sw"
      by (rule zdiv_mono2) (use swp in simp_all)
    then show ?thesis by simp
  qed
  then have shp: "0 < 65536 div ?sw" by linarith
  have "(subRects r = [r]) = (width r \<le> ?sw \<and> height r \<le> 65536 div ?sw)"
    unfolding sr by (rule spec_tiling_one_iff [OF assms swp shp])
  also have "\<dots> = (width r \<le> 2048 \<and> ?sw * height r \<le> 65536)"
    by (simp add: le_div_iff_mult [OF swp])
  also have "\<dots> = (width r * height r \<le> 65536 \<and> width r \<le> 2048)"
    by (auto simp: min_def)
  finally show ?thesis .
qed

lemma subRects_intact_iff:
  "(subRects r = [r]) =
     (width r * height r < 65536 \<and> width r < 2048
      \<or> 0 < height r \<and> width r * height r \<le> 65536 \<and> width r \<le> 2048)"
proof (cases "width r * height r < SubRectMaxArea \<and> width r < SubRectMaxWidth")
  case True
  then have "subRects r = [r]" by (simp add: subRects_def)
  with True show ?thesis by (simp add: SubRectMaxArea_def SubRectMaxWidth_def)
next
  case False
  then have ns: "\<not> (width r * height r < 65536 \<and> width r < 2048)"
    unfolding SubRectMaxArea_def SubRectMaxWidth_def .
  show ?thesis
  proof (cases "0 < height r")
    case True
    from False True have w: "0 < width r" by (rule split_width_pos)
    from subRects_intact [OF w True] ns True show ?thesis by auto
  next
    case h: False
    have "subRects r = []" by (simp only: subRects_def False if_False h)
    with ns h show ?thesis by simp
  qed
qed

lemma pushAll_intact: "(pushAll p rs m = queueSubRect r p m) = (rs = [r])"
proof
  assume "pushAll p rs m = queueSubRect r p m"
  then have "workQueue (pushAll p rs m) = workQueue (queueSubRect r p m)" by simp
  then have "map (\<lambda>r. \<lparr>rect = r, pb = p\<rparr>) rs = [\<lparr>rect = r, pb = p\<rparr>]"
    by (simp add: pushAll_def queueSubRect_def)
  then show "rs = [r]" by (cases rs) auto
next
  assume "rs = [r]"
  then show "pushAll p rs m = queueSubRect r p m" by (simp add: pushAll_def queueSubRect_def)
qed

section \<open>The splitter: claims\<close>

text \<open>
  C3, as the code has it. A rectangle of width \<open>w\<close> and height \<open>h\<close> is queued as it is when
  \<open>w * h < 65536\<close> and \<open>w < 2048\<close>; otherwise, when \<open>h\<close> is positive, the work queue receives,
  in row-major order, the \<open>\<lceil>w/sw\<rceil> * \<lceil>h/sh\<rceil>\<close> tiles of the specification with
  \<open>sw = min w 2048\<close> and \<open>sh = 65536 div sw\<close>, and when \<open>h\<close> is not positive it receives
  nothing. A tiling of one tile is the rectangle itself, so that the rectangle is queued
  intact exactly when \<open>w * h < 65536\<close> and \<open>w < 2048\<close>, or \<open>h\<close> is positive, \<open>w * h \<le> 65536\<close>
  and \<open>w \<le> 2048\<close>: a non-empty rectangle, exactly when \<open>w * h \<le> 65536\<close> and \<open>w \<le> 2048\<close>.
  A rectangle of 4096 by 1024 pixels is cut with \<open>sw = 2048\<close> and \<open>sh = 32\<close> into exactly
  64 tiles.
\<close>

theorem writeRects_tiling:
  "splitRect p r m =
     Some (pushAll p
       (if width r * height r < 65536 \<and> width r < 2048 then [r]
        else if 0 < height r
          then spec_tiling r (min (width r) 2048) (65536 div min (width r) 2048)
        else []) m)
   \<and> length (spec_tiling r (min (width r) 2048) (65536 div min (width r) 2048)) =
       ceil_ratio (width r) (min (width r) 2048)
       * ceil_ratio (height r) (65536 div min (width r) 2048)
   \<and> (splitRect p r m = Some (queueSubRect r p m)) =
       (width r * height r < 65536 \<and> width r < 2048
        \<or> 0 < height r \<and> width r * height r \<le> 65536 \<and> width r \<le> 2048)
   \<and> (0 < width r \<and> 0 < height r \<longrightarrow>
        (splitRect p r m = Some (queueSubRect r p m)) =
          (width r * height r \<le> 65536 \<and> width r \<le> 2048))
   \<and> splitRect p \<lparr>tl_x = 0, tl_y = 0, br_x = 4096, br_y = 1024\<rparr> m =
       Some (pushAll p (spec_tiling \<lparr>tl_x = 0, tl_y = 0, br_x = 4096, br_y = 1024\<rparr> 2048 32) m)
   \<and> length (spec_tiling \<lparr>tl_x = 0, tl_y = 0, br_x = 4096, br_y = 1024\<rparr> 2048 32) = 64"
proof (intro conjI impI)
  show "splitRect p r m =
     Some (pushAll p
       (if width r * height r < 65536 \<and> width r < 2048 then [r]
        else if 0 < height r
          then spec_tiling r (min (width r) 2048) (65536 div min (width r) 2048)
        else []) m)"
    unfolding splitRect_subRects
    by (simp add: subRects_def SubRectMaxArea_def SubRectMaxWidth_def)
  show "length (spec_tiling r (min (width r) 2048) (65536 div min (width r) 2048)) =
       ceil_ratio (width r) (min (width r) 2048)
       * ceil_ratio (height r) (65536 div min (width r) 2048)"
    by (rule length_spec_tiling)
  show "(splitRect p r m = Some (queueSubRect r p m)) =
       (width r * height r < 65536 \<and> width r < 2048
        \<or> 0 < height r \<and> width r * height r \<le> 65536 \<and> width r \<le> 2048)"
    unfolding splitRect_subRects by (simp only: option.inject pushAll_intact subRects_intact_iff)
  show "splitRect p \<lparr>tl_x = 0, tl_y = 0, br_x = 4096, br_y = 1024\<rparr> m =
       Some (pushAll p (spec_tiling \<lparr>tl_x = 0, tl_y = 0, br_x = 4096, br_y = 1024\<rparr> 2048 32) m)"
    unfolding splitRect_subRects subRects_4096_1024 ..
  show "length (spec_tiling \<lparr>tl_x = 0, tl_y = 0, br_x = 4096, br_y = 1024\<rparr> 2048 32) = 64"
    by (simp add: length_spec_tiling ceil_ratio_def width_def height_def)
next
  assume "0 < width r \<and> 0 < height r"
  then have w: "0 < width r" and h: "0 < height r" by simp_all
  show "(splitRect p r m = Some (queueSubRect r p m)) =
          (width r * height r \<le> 65536 \<and> width r \<le> 2048)"
    unfolding splitRect_subRects
    by (simp only: option.inject pushAll_intact subRects_intact [OF w h])
qed

text \<open>
  The theorem at a rectangle of 2048 by 33 pixels: two tiles, 32 rows and one row, and
  not the rectangle itself.
\<close>

theorem writeRects_tiling_witness:
  "0 < width \<lparr>tl_x = 10, tl_y = 20, br_x = 2058, br_y = 53\<rparr>
   \<and> 0 < height \<lparr>tl_x = 10, tl_y = 20, br_x = 2058, br_y = 53\<rparr>
   \<and> splitRect () \<lparr>tl_x = 10, tl_y = 20, br_x = 2058, br_y = 53\<rparr> initManager =
       Some (initManager\<lparr>workQueue :=
               [\<lparr>rect = \<lparr>tl_x = 10, tl_y = 20, br_x = 2058, br_y = 52\<rparr>, pb = ()\<rparr>,
                \<lparr>rect = \<lparr>tl_x = 10, tl_y = 52, br_x = 2058, br_y = 53\<rparr>, pb = ()\<rparr>],
             rectCount := 2\<rparr>)
   \<and> splitRect () \<lparr>tl_x = 10, tl_y = 20, br_x = 2058, br_y = 53\<rparr> initManager \<noteq>
       Some (queueSubRect \<lparr>tl_x = 10, tl_y = 20, br_x = 2058, br_y = 53\<rparr> () initManager)"
proof -
  let ?r = "\<lparr>tl_x = 10, tl_y = 20, br_x = 2058, br_y = 53\<rparr>"
  have w: "0 < width ?r" and h: "0 < height ?r"
    by (simp_all add: width_def height_def)
  have u: "[0..<2] = [0, Suc 0]" by (simp add: upt_rec)
  show ?thesis
    using w h writeRects_tiling [of "()" ?r initManager]
    by (simp add: width_def height_def pushAll_def queueSubRect_def initManager_def
                  spec_tiling_def spec_tile_def ceil_ratio_def u)
qed

text \<open>
  C3, as the claim words it (intact exactly when \<open>w * h < 65536\<close> and \<open>w < 2048\<close>), fails: a
  rectangle of 256 by 256 pixels has an area of 65536, fails the test of the first
  branch, and is queued intact all the same, as the one tile of its tiling.
\<close>

theorem writeRects_intact_counterexample:
  "splitRect () \<lparr>tl_x = 0, tl_y = 0, br_x = 256, br_y = 256\<rparr> initManager =
     Some (queueSubRect \<lparr>tl_x = 0, tl_y = 0, br_x = 256, br_y = 256\<rparr> () initManager)
   \<and> \<not> (width \<lparr>tl_x = 0, tl_y = 0, br_x = 256, br_y = 256\<rparr>
          * height \<lparr>tl_x = 0, tl_y = 0, br_x = 256, br_y = 256\<rparr> < 65536
        \<and> width \<lparr>tl_x = 0, tl_y = 0, br_x = 256, br_y = 256\<rparr> < 2048)"
  unfolding splitRect_subRects
  by (simp add: subRects_def width_def height_def SubRectMaxArea_def
                SubRectMaxWidth_def spec_tiling_def ceil_ratio_def spec_tile_def
                pushAll_def queueSubRect_def initManager_def)

text \<open>
  C2, as the code has it: \<^verbatim>\<open>writeRects\<close> returns from its loops for every list of
  rectangles, and every sub-rectangle it queues has an area of at most \<^verbatim>\<open>SubRectMaxArea\<close>
  and a width of at most \<^verbatim>\<open>SubRectMaxWidth\<close> ("no larger than this area, and no wider
  than this width", as the comment on the two constants says). Both bounds are reached.
\<close>

theorem writeRects_subrect_bounds:
  "\<exists>m'. queueRects p rs m = Some m'
     \<and> (\<forall>e \<in> set (drop (length (workQueue m)) (workQueue m')).
           area (rect e) \<le> SubRectMaxArea \<and> width (rect e) \<le> SubRectMaxWidth)"
proof -
  have "\<forall>e \<in> set (map (\<lambda>r. \<lparr>rect = r, pb = p\<rparr>) (concat (map subRects rs))).
           area (rect e) \<le> SubRectMaxArea \<and> width (rect e) \<le> SubRectMaxWidth"
    using subRects_bounds by auto
  then show ?thesis
    unfolding queueRects_subRects by (simp add: pushAll_def)
qed

text \<open>
  C2, as the claim words it (area strictly below 65536 and width strictly below 2048),
  fails: a rectangle of 2048 by 32 pixels is not "small enough" for the first branch, is
  cut into one tile, and that tile has area 65536 and width 2048.
\<close>

theorem writeRects_subrect_strict_counterexample:
  "queueRects () [\<lparr>tl_x = 0, tl_y = 0, br_x = 2048, br_y = 32\<rparr>] initManager =
     Some (initManager\<lparr>workQueue :=
             [\<lparr>rect = \<lparr>tl_x = 0, tl_y = 0, br_x = 2048, br_y = 32\<rparr>, pb = ()\<rparr>],
           rectCount := 1\<rparr>)
   \<and> \<not> area \<lparr>tl_x = 0, tl_y = 0, br_x = 2048, br_y = 32\<rparr> < SubRectMaxArea
   \<and> \<not> width \<lparr>tl_x = 0, tl_y = 0, br_x = 2048, br_y = 32\<rparr> < SubRectMaxWidth"
  unfolding queueRects_subRects
  by (simp add: subRects_def width_def height_def area_def SubRectMaxArea_def
                SubRectMaxWidth_def spec_tiling_def ceil_ratio_def spec_tile_def
                pushAll_def initManager_def)

text \<open>The bounds at the same rectangle.\<close>

theorem writeRects_subrect_bounds_witness:
  "queueRects () [\<lparr>tl_x = 0, tl_y = 0, br_x = 2048, br_y = 32\<rparr>] initManager =
     Some (initManager\<lparr>workQueue :=
             [\<lparr>rect = \<lparr>tl_x = 0, tl_y = 0, br_x = 2048, br_y = 32\<rparr>, pb = ()\<rparr>],
           rectCount := 1\<rparr>)
   \<and> area \<lparr>tl_x = 0, tl_y = 0, br_x = 2048, br_y = 32\<rparr> \<le> SubRectMaxArea
   \<and> width \<lparr>tl_x = 0, tl_y = 0, br_x = 2048, br_y = 32\<rparr> \<le> SubRectMaxWidth"
proof -
  let ?r = "\<lparr>tl_x = 0, tl_y = 0, br_x = 2048, br_y = 32\<rparr>"
  have q: "queueRects () [?r] initManager =
     Some (initManager\<lparr>workQueue := [\<lparr>rect = ?r, pb = ()\<rparr>], rectCount := 1\<rparr>)"
    unfolding queueRects_subRects
    by (simp add: subRects_def width_def height_def SubRectMaxArea_def
                SubRectMaxWidth_def spec_tiling_def ceil_ratio_def spec_tile_def
                pushAll_def initManager_def)
  from writeRects_subrect_bounds [of "()" "[?r]" initManager]
  show ?thesis unfolding q by (simp add: initManager_def)
qed

section \<open>The wire codec: helper facts\<close>

lemma U32_of_bytes_of_U32:
  "U32_of_bytes (ucast (drop_bit 24 v)) (ucast (drop_bit 16 v)) (ucast (drop_bit 8 v)) (ucast v) = v"
proof (rule bit_word_eqI)
  fix n
  assume n: "n < LENGTH(32)"
  consider "n < 8" | "8 \<le> n" "n < 16" | "16 \<le> n" "n < 24" | "24 \<le> n"
    by linarith
  then show "bit (U32_of_bytes (ucast (drop_bit 24 v)) (ucast (drop_bit 16 v))
                   (ucast (drop_bit 8 v)) (ucast v)) n = bit v n"
    using n by cases (auto simp: U32_of_bytes_def bit_simps)
qed

lemma is_readU32_bytes_of_U32: "is_readU32 (bytes_of_U32 v @ s) = Inr (v, s)"
  by (simp add: is_readU32_def bytes_of_U32_def U32_of_bytes_of_U32)

lemma length_bytes_of_U32: "length (bytes_of_U32 v) = 4"
  by (simp add: bytes_of_U32_def)

lemma is_skip_append: "is_skip (length a) (a @ s) = Inr s"
  by (simp add: is_skip_def)

lemma is_readBytes_append: "is_readBytes (length a) (a @ s) = Inr (a, s)"
  by (simp add: is_readBytes_def)

lemma odd_div_top:
  assumes "0 \<le> (x::int)" "x < 2 * m"
  shows "odd (x div m) = (m \<le> x)"
proof (cases "x < m")
  case True
  then show ?thesis using assms by (simp add: div_pos_pos_trivial)
next
  case False
  then have "x div m = 1"
    using assms by (intro int_div_pos_eq [where r = "x - m"]) auto
  with False show ?thesis by simp
qed

lemma high_bit_iff: "((len :: U32) AND 0x80000000 \<noteq> 0) = (2 ^ 31 \<le> uint len)"
proof -
  have "(len AND 0x80000000 \<noteq> 0) = bit len 31"
    using bit_iff_and_push_bit_not_eq_0 [of len 31] by simp
  also have "\<dots> = bit (uint len) 31" by (simp add: bit_uint_iff)
  also have "\<dots> = odd (uint len div 2 ^ 31)" by (simp only: bit_iff_odd)
  also have "\<dots> = (2 ^ 31 \<le> uint len)"
    using uint_bounded [of len] by (intro odd_div_top) auto
  finally show ?thesis .
qed

lemma sint_neg_high:
  assumes "2 ^ 31 < uint (len :: U32)"
  shows "sint (- len) = 2 ^ 32 - uint len"
proof -
  have b: "uint len < 2 ^ 32" using uint_bounded [of len] by simp
  have "uint (- len) = (- uint len) mod 2 ^ 32" by (simp add: uint_word_ariths)
  also have "\<dots> = 2 ^ 32 - uint len"
    using assms b by (simp add: zmod_zminus1_eq_if)
  finally have u: "uint (- len) = 2 ^ 32 - uint len" .
  have "sint (- len) = signed_take_bit 31 (uint (- len))" by (simp add: sint_uint)
  also have "\<dots> = uint (- len)"
    unfolding u using assms b by (intro signed_take_bit_int_eq_self) auto
  finally show ?thesis using u by simp
qed

lemma size_t_of_int_nonneg: "0 \<le> i \<Longrightarrow> i < 2 ^ 31 \<Longrightarrow> size_t_of_int i = nat i"
  by (simp add: size_t_of_int_def)

lemma readCutText_header:
  "readCutText k inflate maxCutText (p0 # p1 # p2 # bytes_of_U32 len @ rest) =
     (if len AND 0x80000000 \<noteq> 0 then
        readExtendedClipboard k inflate maxCutText (sint (- len)) rest
      else if unat len > size_t_of_int maxCutText then
        (case is_skip (unat len) rest of Inl e \<Rightarrow> Inl e | Inr s3 \<Rightarrow> Inr (None, s3))
      else
        (case is_readBytes (unat len) rest of Inl e \<Rightarrow> Inl e
         | Inr (buf, s3) \<Rightarrow> Inr (Some (Call_cutText buf len), s3)))"
  by (simp add: readCutText_def is_skip_def numeral_3_eq_3 is_readU32_bytes_of_U32)

lemma size_t_less_iff:
  assumes "0 \<le> maxCutText" and "maxCutText < 2 ^ 31"
  shows "(size_t_of_int maxCutText < unat (len::U32)) = (maxCutText < uint len)"
proof -
  have s: "size_t_of_int maxCutText = nat maxCutText"
    using assms by (rule size_t_of_int_nonneg)
  have u: "unat len = nat (uint len)" by (rule unat_eq_nat_uint)
  show ?thesis unfolding s u using assms(1) by linarith
qed

lemma flag_test: "((f :: U32) AND push_bit i 1 \<noteq> 0) = bit f i"
  by (simp only: bit_iff_and_push_bit_not_eq_0)

lemma flag_test_pow: "((f :: U32) AND 2 ^ i \<noteq> 0) = bit f i"
  using flag_test [of f i] by simp

lemma flag_test_pow0: "((f :: U32) AND 2 ^ i = 0) = (\<not> bit f i)"
  using flag_test_pow [of f i] by blast

lemma bit_clear_other: "j \<noteq> i \<Longrightarrow> bit ((f :: U32) AND NOT (push_bit i 1)) j = bit f j"
  by (auto simp: bit_simps dest: bit_imp_le_length)

lemma bit_clear_same: "\<not> bit ((f :: U32) AND NOT (push_bit i 1)) i"
  by (auto simp: bit_simps)

lemma bit_clear_other_pow: "j \<noteq> i \<Longrightarrow> bit ((f :: U32) AND NOT (2 ^ i)) j = bit f j"
  using bit_clear_other [of j i f] by simp

lemma bit_clear_same_pow: "\<not> bit ((f :: U32) AND NOT (2 ^ i)) i"
  using bit_clear_same [of f i] by simp

lemma filter_bit_clear:
  assumes "i \<notin> set is"
  shows "filter (bit ((f :: U32) AND NOT (push_bit i 1))) is = filter (bit f) is"
proof (rule filter_cong [OF refl])
  fix x
  assume "x \<in> set is"
  with assms have "x \<noteq> i" by auto
  then show "bit (f AND NOT (push_bit i 1)) x = bit f x" by (rule bit_clear_other)
qed

lemma provide_stream_clear:
  "i \<notin> set is \<Longrightarrow> provide_stream is (f AND NOT (push_bit i 1)) payload = provide_stream is f payload"
  using filter_bit_clear [of i "is" f] by (simp add: provide_stream_def)

lemma provide_kept_clear:
  assumes "i \<notin> set is"
  shows "provide_kept mx is (f AND NOT (push_bit i 1)) payload = provide_kept mx is f payload"
  unfolding provide_kept_def
proof (rule filter_cong [OF refl])
  fix x
  assume "x \<in> set is"
  with assms have "x \<noteq> i" by auto
  then have "bit (f AND NOT (push_bit i 1)) x = bit f x" by (rule bit_clear_other)
  then show "(bit (f AND NOT (push_bit i 1)) x \<and> int (length (payload x)) \<le> mx) =
             (bit f x \<and> int (length (payload x)) \<le> mx)"
    by (rule arg_cong)
qed

lemma bit_clearOversized:
  "distinct is \<Longrightarrow>
   bit (clearOversized mx payload is f) j =
     (bit f j \<and> \<not> (j \<in> set is \<and> mx < int (length (payload j))))"
proof (induction "is" arbitrary: f)
  case Nil
  then show ?case by simp
next
  case (Cons i "is")
  then show ?case
    by (cases "j = i") (auto simp: bit_clear_other_pow bit_clear_same_pow)
qed

lemma unat_length_U32: "n < 2 ^ 32 \<Longrightarrow> unat (of_nat n :: U32) = n"
  by (simp add: unat_of_nat)

lemma readProvideLoop_stream:
  assumes mx: "0 \<le> mx" "mx < 2 ^ 31"
  shows "distinct is \<Longrightarrow> \<forall>i \<in> set is. length (payload i) < 2 ^ 32 \<Longrightarrow>
         readProvideLoop mx is f ls bs (provide_stream is f payload @ ztail) =
           Inr (clearOversized mx payload is f,
                ls @ map (\<lambda>i. length (payload i)) (provide_kept mx is f payload),
                bs @ map payload (provide_kept mx is f payload), ztail)"
proof (induction "is" arbitrary: f ls bs)
  case Nil
  then show ?case by (simp add: provide_stream_def provide_kept_def)
next
  case (Cons i "is")
  from Cons.prems have d: "distinct is" and ni: "i \<notin> set is"
    and b: "\<forall>i \<in> set is. length (payload i) < 2 ^ 32" and bi: "length (payload i) < 2 ^ 32"
    by auto
  note IH = Cons.IH [OF d b]
  show ?case
  proof (cases "bit f i")
    case False
    then show ?thesis
      using IH [of f ls bs] by (simp add: flag_test_pow0 provide_stream_def provide_kept_def)
  next
    case True
    let ?L = "length (payload i)"
    have st: "provide_stream (i # is) f payload =
              bytes_of_U32 (of_nat ?L) @ payload i @ provide_stream is f payload"
      using True by (simp add: provide_stream_def)
    have "(size_t_of_int mx < unat (of_nat ?L :: U32)) = (mx < int ?L)"
      unfolding size_t_less_iff [OF mx] by (simp add: unat_length_U32 [OF bi] uint_nat)
    then have sz: "(size_t_of_int mx < ?L) = (mx < int ?L)"
      by (simp only: unat_length_U32 [OF bi])
    show ?thesis
    proof (cases "mx < int ?L")
      case big: True
      have "readProvideLoop mx (i # is) f ls bs (provide_stream (i # is) f payload @ ztail) =
            readProvideLoop mx is (f AND NOT (push_bit i 1)) ls bs
              (provide_stream is f payload @ ztail)"
        using True big
        by (simp add: st flag_test_pow0 is_readU32_bytes_of_U32 sz is_skip_def
            unat_length_U32 [OF bi])
      also have "\<dots> = readProvideLoop mx is (f AND NOT (push_bit i 1)) ls bs
              (provide_stream is (f AND NOT (push_bit i 1)) payload @ ztail)"
        using provide_stream_clear [OF ni, of f payload] by simp
      finally show ?thesis
        using True big IH [of "f AND NOT (push_bit i 1)" ls bs] provide_kept_clear [OF ni, of mx f payload]
        by (simp add: provide_kept_def)
    next
      case small: False
      have "readProvideLoop mx (i # is) f ls bs (provide_stream (i # is) f payload @ ztail) =
            readProvideLoop mx is f (ls @ [?L]) (bs @ [payload i])
              (provide_stream is f payload @ ztail)"
        using True small
        by (simp add: st flag_test_pow0 is_readU32_bytes_of_U32 sz is_readBytes_def
            unat_length_U32 [OF bi])
      then show ?thesis
        using True small IH [of f "ls @ [?L]" "bs @ [payload i]"]
        by (simp add: provide_kept_def)
    qed
  qed
qed

lemma filter_flag_test:
  "filter (\<lambda>i. (f :: U32) AND push_bit i 1 \<noteq> 0) is = filter (bit f) is"
  by (rule filter_cong [OF refl]) (simp only: flag_test)

lemma filter_flag_test_pow:
  "filter (\<lambda>i. (f :: U32) AND 2 ^ i \<noteq> 0) is = filter (bit f) is"
  by (rule filter_cong [OF refl]) (simp only: flag_test_pow)

lemma readCapsLengths_concat:
  "length ls = length (filter (bit flags) is) \<Longrightarrow>
   readCapsLengths is flags acc (concat (map bytes_of_U32 ls) @ rest) = Inr (acc @ ls, rest)"
proof (induction "is" arbitrary: acc ls)
  case Nil
  then show ?case by simp
next
  case (Cons i "is")
  show ?case
  proof (cases "bit flags i")
    case False
    with Cons show ?thesis by (simp add: flag_test_pow0)
  next
    case True
    with Cons.prems obtain l ls' where ls: "ls = l # ls'"
      and len: "length ls' = length (filter (bit flags) is)"
      by (cases ls) auto
    show ?thesis
      using True Cons.IH [OF len, of "acc @ [l]"]
      by (simp add: ls flag_test_pow0 is_readU32_bytes_of_U32)
  qed
qed

lemma writeCapsLengths_error:
  "fst (writeCapsLengths is caps lengths os) = None
   \<or> fst (writeCapsLengths is caps lengths os) = Some ArrayOverrun"
  by (induction "is" caps lengths os rule: writeCapsLengths.induct)
     (auto split: list.splits)

lemma size_t_of_int_neg:
  assumes "i < 0" and "- (2 ^ 31) \<le> i"
  shows "\<not> size_t_of_int i < unat (len :: U32)"
proof -
  have "i mod 2 ^ 64 = i + 2 ^ 64"
    using assms by (intro int_mod_pos_eq [where q = "- 1"]) auto
  then have s: "size_t_of_int i = nat (i + 2 ^ 64)" by (simp only: size_t_of_int_def)
  have u: "unat len = nat (uint len)" by (rule unat_eq_nat_uint)
  have "uint len < 2 ^ 32" using uint_bounded [of len] by simp
  moreover have "(2::int) ^ 32 + 2 ^ 31 \<le> 2 ^ 64" by simp
  ultimately show ?thesis unfolding s u using assms(2) by linarith
qed

lemma sint_U32_range: "- (2 ^ 31) \<le> sint (m :: U32) \<and> sint m < 2 ^ 31"
  using sint_ge [of m] sint_lt [of m] by simp

lemma readCutText_int_min:
  "readCutText k inflate maxCutText (p0 # p1 # p2 # bytes_of_U32 0x80000000 @ rest) =
     Inl (Exception ''Invalid extended clipboard message'')"
proof -
  have h: "(0x80000000 :: U32) AND 0x80000000 \<noteq> 0" by simp
  have s: "sint (- (0x80000000 :: U32)) = - 2147483648" by simp
  show ?thesis
    by (simp only: readCutText_header if_P [OF h] s) (simp add: readExtendedClipboard_def)
qed

lemma readExtendedClipboard_short:
  "len < 4 \<Longrightarrow>
   readExtendedClipboard k inflate maxCutText len s =
     Inl (Exception ''Invalid extended clipboard message'')"
  by (simp add: readExtendedClipboard_def)

lemma readExtendedClipboard_long:
  "4 \<le> len \<Longrightarrow> maxCutText < len \<Longrightarrow> nat len \<le> length s \<Longrightarrow>
   readExtendedClipboard k inflate maxCutText len s = Inr (None, drop (nat len) s)"
  by (simp add: readExtendedClipboard_def is_skip_def)

section \<open>The wire codec: claims\<close>

text \<open>
  C8, as the code has it. Round trip of a fence: for a peer that supports fences, every
  flags value without a bit outside \<^verbatim>\<open>fenceFlagsSupported\<close>, every \<open>len \<le> 64\<close> and every
  payload of \<open>len\<close> bytes, \<^verbatim>\<open>writeFence(flags, len, data)\<close> raises nothing and appends the
  message type, three bytes of padding, the flags, the length and the payload; from the
  bytes after the type \<^verbatim>\<open>readFence\<close> delivers exactly \<open>(flags, len, data)\<close> to the fence
  handler and leaves what follows the message. When the flags hold a bit outside
  \<^verbatim>\<open>fenceFlagsSupported\<close>, or the peer has no fences, \<^verbatim>\<open>writeFence\<close> raises and writes
  nothing.
\<close>

theorem fence_roundtrip:
  "(supportsFence cp \<longrightarrow> len \<le> 64 \<longrightarrow> length data = len \<longrightarrow>
      flags AND NOT (fenceFlagsSupported k) = 0 \<longrightarrow>
        writeFence k cp client flags len data os =
          (None, os @ (if client then msgTypeClientFence k else msgTypeServerFence k)
                      # [0, 0, 0] @ bytes_of_U32 flags @ [of_nat len] @ data)
        \<and> readFence ([0, 0, 0] @ bytes_of_U32 flags @ [of_nat len] @ data @ rest) =
            Inr (Some (Call_fence flags len data), rest))
   \<and> (supportsFence cp \<longrightarrow> len \<le> 64 \<longrightarrow> flags AND NOT (fenceFlagsSupported k) \<noteq> 0 \<longrightarrow>
        writeFence k cp client flags len data os =
          (Some (Exception ''Unknown fence flags''), os))
   \<and> (\<not> supportsFence cp \<longrightarrow>
        writeFence k cp client flags len data os =
          (Some (Exception ''Peer does not support fences''), os))"
proof (intro conjI impI)
  assume a: "supportsFence cp" "len \<le> 64" "length data = len"
    "flags AND NOT (fenceFlagsSupported k) = 0"
  show "writeFence k cp client flags len data os =
          (None, os @ (if client then msgTypeClientFence k else msgTypeServerFence k)
                      # [0, 0, 0] @ bytes_of_U32 flags @ [of_nat len] @ data)"
    using a
    by (simp add: writeFence_def endMsg_def os_writeBytes_def os_writeU8_def os_writeU32_def
        os_pad_def startMsg_def numeral_3_eq_3)
  have len8: "unat (of_nat len :: byte) = len"
    using a(2) by (simp add: unat_of_nat)
  show "readFence ([0, 0, 0] @ bytes_of_U32 flags @ [of_nat len] @ data @ rest) =
          Inr (Some (Call_fence flags len data), rest)"
    using a(2,3)
    by (simp add: readFence_def is_skip_def is_readU32_bytes_of_U32 is_readU8_def len8
        is_readBytes_def)
next
  assume "supportsFence cp" "len \<le> 64" "flags AND NOT (fenceFlagsSupported k) \<noteq> 0"
  then show "writeFence k cp client flags len data os =
          (Some (Exception ''Unknown fence flags''), os)"
    by (simp add: writeFence_def)
next
  assume "\<not> supportsFence cp"
  then show "writeFence k cp client flags len data os =
          (Some (Exception ''Peer does not support fences''), os)"
    by (simp add: writeFence_def)
qed

text \<open>
  The round trip of the fence \<open>(Request, 4, "ping")\<close> written by a server, the same fence
  with an unknown flag bit, and the same fence for a peer without fences.
\<close>

theorem fence_roundtrip_witness:
  "supportsFence peerWithFence \<and> (4::nat) \<le> 64 \<and> length [112, 105, 110, 103 :: byte] = 4
   \<and> (0x80000000 :: U32) AND NOT (fenceFlagsSupported rfbProtocol) = 0
   \<and> writeFence rfbProtocol peerWithFence False 0x80000000 4 [112, 105, 110, 103] [] =
       (None, [248, 0, 0, 0, 0x80, 0, 0, 0, 4, 112, 105, 110, 103])
   \<and> readFence [0, 0, 0, 0x80, 0, 0, 0, 4, 112, 105, 110, 103, 9] =
       Inr (Some (Call_fence 0x80000000 4 [112, 105, 110, 103]), [9])
   \<and> (0x80000008 :: U32) AND NOT (fenceFlagsSupported rfbProtocol) \<noteq> 0
   \<and> writeFence rfbProtocol peerWithFence False 0x80000008 4 [112, 105, 110, 103] [7] =
       (Some (Exception ''Unknown fence flags''), [7])
   \<and> \<not> supportsFence plainPeer
   \<and> writeFence rfbProtocol plainPeer False 0x80000000 4 [112, 105, 110, 103] [7] =
       (Some (Exception ''Peer does not support fences''), [7])"
proof -
  have s: "supportsFence peerWithFence" by (simp add: peerWithFence_def)
  have n: "\<not> supportsFence plainPeer" by (simp add: plainPeer_def)
  have f: "(0x80000000 :: U32) AND NOT (fenceFlagsSupported rfbProtocol) = 0"
    by (simp add: rfbProtocol_def)
  have g: "(0x80000008 :: U32) AND NOT (fenceFlagsSupported rfbProtocol) \<noteq> 0"
    by (simp add: rfbProtocol_def)
  have b: "bytes_of_U32 0x80000000 = [0x80, 0, 0, 0]" by (simp add: bytes_of_U32_def)
  have m: "msgTypeServerFence rfbProtocol = 248" by (simp add: rfbProtocol_def)
  from fence_roundtrip [where cp = peerWithFence and k = rfbProtocol and client = False
      and flags = "0x80000000" and len = 4 and data = "[112, 105, 110, 103]" and os = "[]"
      and rest = "[9]"]
    fence_roundtrip [where cp = peerWithFence and k = rfbProtocol and client = False
      and flags = "0x80000008" and len = 4 and data = "[112, 105, 110, 103]" and os = "[7]"]
    fence_roundtrip [where cp = plainPeer and k = rfbProtocol and client = False
      and flags = "0x80000000" and len = 4 and data = "[112, 105, 110, 103]" and os = "[7]"]
    s n f g
  show ?thesis by (simp add: b m)
qed

text \<open>
  C8, as the claim words it (for every flags value), fails: with the flags value 8, a bit
  outside \<^verbatim>\<open>fenceFlagsSupported\<close>, \<^verbatim>\<open>writeFence\<close> raises for a peer that supports fences and
  produces no bytes to read back; and it raises for every flags value when the peer has
  no fences.
\<close>

theorem writeFence_unknown_flags_counterexample:
  "writeFence rfbProtocol peerWithFence False 8 4 [112, 105, 110, 103] [] =
     (Some (Exception ''Unknown fence flags''), [])
   \<and> supportsFence peerWithFence
   \<and> length [112, 105, 110, 103 :: byte] = 4
   \<and> writeFence rfbProtocol peerWithoutCapsBit False 1 4 [112, 105, 110, 103] [] =
       (Some (Exception ''Peer does not support fences''), [])
   \<and> (1 :: U32) AND NOT (fenceFlagsSupported rfbProtocol) = 0"
  by code_simp

text \<open>
  C6, as the code has it. The configured maximum is a C \<^verbatim>\<open>int\<close>, the signed value of a
  32-bit word. After three bytes of padding and the \<open>u32\<close> length \<open>len\<close>:
  \<^item> if the high bit of \<open>len\<close> is set and \<open>len\<close> is not \<open>0x80000000\<close>, the message goes to
    \<^verbatim>\<open>readExtendedClipboard\<close> with the positive length \<open>2^32 - len\<close> (the negated two's
    complement value);
  \<^item> if \<open>len\<close> is \<open>0x80000000\<close>, the negation overflows and the call raises;
  \<^item> if the high bit is clear and \<open>len > (size_t)maxCutText\<close>, that is \<open>maxCutText \<ge> 0\<close> and
    \<open>len > maxCutText\<close>, exactly \<open>len\<close> bytes are skipped and no handler is called;
  \<^item> if the high bit is clear and \<open>maxCutText < 0\<close> or \<open>len \<le> maxCutText\<close>, exactly \<open>len\<close>
    bytes are read and delivered to the \<^verbatim>\<open>cutText\<close> handler;
  \<^item> in the last two cases, when fewer than \<open>len\<close> bytes follow, the read runs past the
    end of the stream.
\<close>

theorem readCutText_cases:
  "(len AND 0x80000000 \<noteq> 0 \<longrightarrow> len \<noteq> 0x80000000 \<longrightarrow>
      0 < 2 ^ 32 - uint len
      \<and> readCutText k inflate (sint (maxCutText :: U32))
            (p0 # p1 # p2 # bytes_of_U32 len @ rest) =
          readExtendedClipboard k inflate (sint maxCutText) (2 ^ 32 - uint len) rest)
   \<and> (len = 0x80000000 \<longrightarrow>
      readCutText k inflate (sint maxCutText) (p0 # p1 # p2 # bytes_of_U32 len @ rest) =
        Inl (Exception ''Invalid extended clipboard message''))
   \<and> (len AND 0x80000000 = 0 \<longrightarrow> 0 \<le> sint maxCutText \<longrightarrow> sint maxCutText < uint len \<longrightarrow>
      unat len \<le> length rest \<longrightarrow>
      readCutText k inflate (sint maxCutText) (p0 # p1 # p2 # bytes_of_U32 len @ rest) =
        Inr (None, drop (unat len) rest))
   \<and> (len AND 0x80000000 = 0 \<longrightarrow> sint maxCutText < 0 \<or> uint len \<le> sint maxCutText \<longrightarrow>
      unat len \<le> length rest \<longrightarrow>
      readCutText k inflate (sint maxCutText) (p0 # p1 # p2 # bytes_of_U32 len @ rest) =
        Inr (Some (Call_cutText (take (unat len) rest) len), drop (unat len) rest))
   \<and> (len AND 0x80000000 = 0 \<longrightarrow> length rest < unat len \<longrightarrow>
      readCutText k inflate (sint maxCutText) (p0 # p1 # p2 # bytes_of_U32 len @ rest) =
        Inl EndOfStream)"
proof (intro conjI impI)
  assume h: "len AND 0x80000000 \<noteq> 0" and n: "len \<noteq> 0x80000000"
  from h have "2 ^ 31 \<le> uint len" by (simp only: high_bit_iff)
  moreover have "uint len \<noteq> 2 ^ 31"
  proof
    assume "uint len = 2 ^ 31"
    then have "uint len = uint (0x80000000 :: U32)" by simp
    then have "len = 0x80000000" by (simp only: word_uint_eq_iff)
    with n show False by simp
  qed
  ultimately have gt: "2 ^ 31 < uint len" by simp
  show "0 < 2 ^ 32 - uint len" using uint_bounded [of len] by simp
  show "readCutText k inflate (sint maxCutText) (p0 # p1 # p2 # bytes_of_U32 len @ rest) =
          readExtendedClipboard k inflate (sint maxCutText) (2 ^ 32 - uint len) rest"
    by (simp only: readCutText_header if_P [OF h] sint_neg_high [OF gt])
next
  assume "len = 0x80000000"
  then show "readCutText k inflate (sint maxCutText) (p0 # p1 # p2 # bytes_of_U32 len @ rest) =
        Inl (Exception ''Invalid extended clipboard message'')"
    by (simp only: readCutText_int_min)
next
  assume h: "len AND 0x80000000 = 0" and pos: "0 \<le> sint maxCutText"
    and big: "sint maxCutText < uint len" and r: "unat len \<le> length rest"
  have nh: "\<not> len AND 0x80000000 \<noteq> 0" using h by simp
  have lt: "sint maxCutText < 2 ^ 31" using sint_U32_range [of maxCutText] by simp
  have "size_t_of_int (sint maxCutText) < unat len"
    using big by (simp only: size_t_less_iff [OF pos lt])
  then show "readCutText k inflate (sint maxCutText) (p0 # p1 # p2 # bytes_of_U32 len @ rest) =
          Inr (None, drop (unat len) rest)"
    using r by (simp only: readCutText_header if_not_P [OF nh]) (simp add: is_skip_def)
next
  assume h: "len AND 0x80000000 = 0"
    and small: "sint maxCutText < 0 \<or> uint len \<le> sint maxCutText"
    and r: "unat len \<le> length rest"
  have nh: "\<not> len AND 0x80000000 \<noteq> 0" using h by simp
  have lt: "sint maxCutText < 2 ^ 31" and ge: "- (2 ^ 31) \<le> sint maxCutText"
    using sint_U32_range [of maxCutText] by simp_all
  have "\<not> size_t_of_int (sint maxCutText) < unat len"
  proof (cases "sint maxCutText < 0")
    case True
    then show ?thesis using ge by (rule size_t_of_int_neg)
  next
    case False
    then have pos: "0 \<le> sint maxCutText" by simp
    with small have "uint len \<le> sint maxCutText" by linarith
    then show ?thesis by (simp only: size_t_less_iff [OF pos lt] not_less)
  qed
  then show "readCutText k inflate (sint maxCutText) (p0 # p1 # p2 # bytes_of_U32 len @ rest) =
          Inr (Some (Call_cutText (take (unat len) rest) len), drop (unat len) rest)"
    using r by (simp only: readCutText_header if_not_P [OF nh]) (simp add: is_readBytes_def)
next
  assume h: "len AND 0x80000000 = 0" and r: "length rest < unat len"
  have nh: "\<not> len AND 0x80000000 \<noteq> 0" using h by simp
  show "readCutText k inflate (sint maxCutText) (p0 # p1 # p2 # bytes_of_U32 len @ rest) =
          Inl EndOfStream"
    using r by (simp only: readCutText_header if_not_P [OF nh])
      (simp add: is_readBytes_def is_skip_def)
qed

text \<open>
  The cases at concrete messages: length \<open>-4\<close> (an extended clipboard request); two bytes
  with a maximum of one byte, with the default maximum and with the maximum \<open>-1\<close>; two bytes
  announced and one sent; the length \<open>0x80000000\<close>.
\<close>

theorem readCutText_cases_witness:
  "(0xfffffffc :: U32) AND 0x80000000 \<noteq> 0 \<and> (0xfffffffc :: U32) \<noteq> 0x80000000
   \<and> readCutText rfbProtocol Some (sint (262144 :: U32))
        [0, 0, 0, 0xff, 0xff, 0xff, 0xfc, 2, 0, 0, 0] =
       readExtendedClipboard rfbProtocol Some (sint (262144 :: U32)) 4 [2, 0, 0, 0]
   \<and> (2 :: U32) AND 0x80000000 = 0 \<and> 0 \<le> sint (1 :: U32) \<and> sint (1 :: U32) < uint (2 :: U32)
   \<and> readCutText rfbProtocol Some (sint (1 :: U32)) [0, 0, 0, 0, 0, 0, 2, 104, 105, 7] =
       Inr (None, [7])
   \<and> uint (2 :: U32) \<le> sint (262144 :: U32)
   \<and> readCutText rfbProtocol Some (sint (262144 :: U32)) [0, 0, 0, 0, 0, 0, 2, 104, 105, 7] =
       Inr (Some (Call_cutText [104, 105] 2), [7])
   \<and> sint (- 1 :: U32) < 0
   \<and> readCutText rfbProtocol Some (sint (- 1 :: U32)) [0, 0, 0, 0, 0, 0, 2, 104, 105, 7] =
       Inr (Some (Call_cutText [104, 105] 2), [7])
   \<and> readCutText rfbProtocol Some (sint (262144 :: U32)) [0, 0, 0, 0, 0, 0, 2, 104] =
       Inl EndOfStream
   \<and> readCutText rfbProtocol Some (sint (262144 :: U32)) [0, 0, 0, 0x80, 0, 0, 0, 9] =
       Inl (Exception ''Invalid extended clipboard message'')"
proof -
  have b3: "bytes_of_U32 0x80000000 = [0x80, 0, 0, 0]" by (simp add: bytes_of_U32_def)
  have b1: "bytes_of_U32 0xfffffffc = [0xff, 0xff, 0xff, 0xfc]" by (simp add: bytes_of_U32_def)
  have b2: "bytes_of_U32 2 = [0, 0, 0, 2]" by (simp add: bytes_of_U32_def)
  from readCutText_cases [where len = "0xfffffffc" and k = rfbProtocol and maxCutText = 262144
      and inflate = Some and ?p0.0 = 0 and ?p1.0 = 0 and ?p2.0 = 0 and rest = "[2, 0, 0, 0]"]
    readCutText_cases [where len = 2 and k = rfbProtocol and maxCutText = 1
      and inflate = Some and ?p0.0 = 0 and ?p1.0 = 0 and ?p2.0 = 0 and rest = "[104, 105, 7]"]
    readCutText_cases [where len = 2 and k = rfbProtocol and maxCutText = 262144
      and inflate = Some and ?p0.0 = 0 and ?p1.0 = 0 and ?p2.0 = 0 and rest = "[104, 105, 7]"]
    readCutText_cases [where len = 2 and k = rfbProtocol and maxCutText = "- 1"
      and inflate = Some and ?p0.0 = 0 and ?p1.0 = 0 and ?p2.0 = 0 and rest = "[104, 105, 7]"]
    readCutText_cases [where len = 2 and k = rfbProtocol and maxCutText = 262144
      and inflate = Some and ?p0.0 = 0 and ?p1.0 = 0 and ?p2.0 = 0 and rest = "[104]"]
    readCutText_cases [where len = "0x80000000" and k = rfbProtocol and maxCutText = 262144
      and inflate = Some and ?p0.0 = 0 and ?p1.0 = 0 and ?p2.0 = 0 and rest = "[9]"]
  show ?thesis by (simp add: b1 b2 b3)
qed

text \<open>
  C6, as the claim words it, fails twice. Not every length with the high bit set is
  dispatched with a positive length: at \<open>len = 0x80000000\<close> the negation is not
  representable, the value handed to \<^verbatim>\<open>readExtendedClipboard\<close> is \<open>-2147483648\<close>, and the call
  raises. And \<open>len > maxCutText\<close> does not always drop the message: the comparison is made
  on \<^verbatim>\<open>(size_t)maxCutText\<close>, so that with the maximum \<open>-1\<close> a text of two bytes is delivered.
\<close>

theorem readCutText_min_length_counterexample:
  "readCutText rfbProtocol Some 262144 [0, 0, 0, 0x80, 0, 0, 0] =
     Inl (Exception ''Invalid extended clipboard message'')
   \<and> (0x80000000 :: U32) AND 0x80000000 \<noteq> 0
   \<and> bytes_of_U32 0x80000000 = [0x80, 0, 0, 0]
   \<and> sint (- (0x80000000 :: U32)) = - 2147483648
   \<and> readCutText rfbProtocol Some (- 1) [0, 0, 0, 0, 0, 0, 2, 104, 105, 7] =
       Inr (Some (Call_cutText [104, 105] 2), [7])
   \<and> (2 :: U32) AND 0x80000000 = 0
   \<and> bytes_of_U32 2 = [0, 0, 0, 2]
   \<and> (- 1 :: int) < uint (2 :: U32)"
  by (simp add: readCutText_def is_skip_def is_readU32_def U32_of_bytes_def
      readExtendedClipboard_def bytes_of_U32_def size_t_of_int_def is_readBytes_def)

text \<open>
  C10, as the code has it. In \<^verbatim>\<open>readExtendedClipboard\<close> with flags whose action field
  contains the \<^verbatim>\<open>Caps\<close> bit, let \<open>n\<close> be the number of set bits among the low 16 format
  bits and \<open>L\<close> the length of the message. For \<open>L\<close> within the maximum (or below 4): if
  \<open>L < 4 + 4n\<close> the call raises the protocol-invalid exception (no handler is called);
  otherwise exactly \<open>n\<close> \<open>u32\<close> values are read, one per set format bit, and delivered with
  the flags to \<^verbatim>\<open>clipboardCaps\<close>. A message with \<open>L \<ge> 4\<close> above the maximum is skipped whole,
  \<open>L\<close> bytes from the flags on: nothing is raised and no handler is called.
\<close>

theorem readExtendedClipboard_caps:
  assumes "(flags AND clipboardActionMask k) AND clipboardCaps k \<noteq> 0"
  shows "(len \<le> maxCutText \<or> len < 4 \<longrightarrow>
          len < 4 + 4 * int (length (filter (bit flags) [0..<16])) \<longrightarrow>
            readExtendedClipboard k inflate maxCutText len (bytes_of_U32 flags @ rest) =
              Inl (Exception ''Invalid extended clipboard message''))
       \<and> (len \<le> maxCutText \<longrightarrow>
          4 + 4 * int (length (filter (bit flags) [0..<16])) \<le> len \<longrightarrow>
          length lengths = length (filter (bit flags) [0..<16]) \<longrightarrow>
            readExtendedClipboard k inflate maxCutText len
                (bytes_of_U32 flags @ concat (map bytes_of_U32 lengths) @ rest) =
              Inr (Some (Call_clipboardCaps flags lengths), rest))
       \<and> (maxCutText < len \<longrightarrow> 4 \<le> len \<longrightarrow> nat len \<le> length (bytes_of_U32 flags @ rest) \<longrightarrow>
            readExtendedClipboard k inflate maxCutText len (bytes_of_U32 flags @ rest) =
              Inr (None, drop (nat len) (bytes_of_U32 flags @ rest)))"
proof (intro conjI impI)
  assume m: "len \<le> maxCutText \<or> len < 4"
    and "len < 4 + 4 * int (length (filter (bit flags) [0..<16]))"
  then show "readExtendedClipboard k inflate maxCutText len (bytes_of_U32 flags @ rest) =
              Inl (Exception ''Invalid extended clipboard message'')"
    using assms
    by (cases "len < 4")
       (simp_all add: readExtendedClipboard_def is_readU32_bytes_of_U32 Let_def
          filter_flag_test_pow del: upt_Suc)
next
  assume m: "len \<le> maxCutText"
    and l: "4 + 4 * int (length (filter (bit flags) [0..<16])) \<le> len"
    and n: "length lengths = length (filter (bit flags) [0..<16])"
  have "4 \<le> len" using l by linarith
  then show "readExtendedClipboard k inflate maxCutText len
                (bytes_of_U32 flags @ concat (map bytes_of_U32 lengths) @ rest) =
              Inr (Some (Call_clipboardCaps flags lengths), rest)"
    using assms m l readCapsLengths_concat [OF n, of "[]" rest]
    by (simp add: readExtendedClipboard_def is_readU32_bytes_of_U32 Let_def filter_flag_test_pow
        del: upt_Suc)
next
  assume "maxCutText < len" "4 \<le> len" "nat len \<le> length (bytes_of_U32 flags @ rest)"
  then show "readExtendedClipboard k inflate maxCutText len (bytes_of_U32 flags @ rest) =
              Inr (None, drop (nat len) (bytes_of_U32 flags @ rest))"
    by (simp only: readExtendedClipboard_long)
qed

text \<open>
  Two format bits: a length of 11 raises, a length of 12 delivers two lengths, and with a
  maximum of 8 the message of length 12 is skipped.
\<close>

theorem readExtendedClipboard_caps_witness:
  "((0x01000003 :: U32) AND clipboardActionMask rfbProtocol) AND clipboardCaps rfbProtocol \<noteq> 0
   \<and> length (filter (bit (0x01000003 :: U32)) [0..<16]) = 2
   \<and> readExtendedClipboard rfbProtocol Some 262144 11 [1, 0, 0, 3] =
       Inl (Exception ''Invalid extended clipboard message'')
   \<and> readExtendedClipboard rfbProtocol Some 262144 12
         [1, 0, 0, 3, 0, 0, 0, 20, 0, 0, 0, 0, 9] =
       Inr (Some (Call_clipboardCaps 0x01000003 [20, 0]), [9])
   \<and> readExtendedClipboard rfbProtocol Some 8 12
         [1, 0, 0, 3, 0, 0, 0, 20, 0, 0, 0, 0, 9] =
       Inr (None, [9])"
proof -
  have c: "((0x01000003 :: U32) AND clipboardActionMask rfbProtocol) AND clipboardCaps rfbProtocol \<noteq> 0"
    by (simp add: rfbProtocol_def)
  have n: "length (filter (bit (0x01000003 :: U32)) [0..<16]) = 2" by code_simp
  have b: "bytes_of_U32 0x01000003 = [1, 0, 0, 3]" "bytes_of_U32 20 = [0, 0, 0, 20]"
    "bytes_of_U32 0 = [0, 0, 0, 0]"
    by (simp_all add: bytes_of_U32_def)
  from readExtendedClipboard_caps [OF c, where inflate = Some and rest = "[]"
      and len = 11 and maxCutText = 262144]
    readExtendedClipboard_caps [OF c, where inflate = Some and rest = "[9]"
      and lengths = "[20, 0]" and len = 12 and maxCutText = 262144]
    readExtendedClipboard_caps [OF c, where inflate = Some
      and rest = "[0, 0, 0, 20, 0, 0, 0, 0, 9]" and len = 12 and maxCutText = 8]
  show ?thesis using c by (simp add: n b del: upt_Suc)
qed

text \<open>
  C10, as the claim words it (for every call whose action field contains the \<^verbatim>\<open>Caps\<close>
  bit), fails for a message above the maximum: with a maximum of 8, the message of
  length 12 with two format bits and two lengths is neither refused nor delivered.
\<close>

theorem readExtendedClipboard_caps_long_counterexample:
  "readExtendedClipboard rfbProtocol Some 8 12 [1, 0, 0, 3, 0, 0, 0, 20, 0, 0, 0, 0, 9] =
     Inr (None, [9])
   \<and> U32_of_bytes 1 0 0 3 = 0x01000003
   \<and> ((0x01000003 :: U32) AND clipboardActionMask rfbProtocol) AND clipboardCaps rfbProtocol \<noteq> 0
   \<and> length (filter (bit (0x01000003 :: U32)) [0..<16]) = 2
   \<and> \<not> (12 :: int) < 4 + 4 * 2"
  by code_simp

text \<open>
  C7, as the code has it. In \<^verbatim>\<open>readExtendedClipboard\<close> with action \<^verbatim>\<open>Provide\<close> (a constant
  that does not hold the \<^verbatim>\<open>Caps\<close> bit) and a message of length \<open>L\<close>: for \<open>L < 4\<close> the call
  raises; a message with \<open>L\<close> above the maximum is skipped whole, \<open>L\<close> bytes from the flags
  on, and no handler is called; for \<open>4 \<le> L \<le> maxCutText\<close>, when the compressed block of
  \<open>L - 4\<close> bytes inflates to the records of the set format bits, every format whose
  length exceeds \<open>maxCutText\<close> has its bit cleared in the delivered flags and its data
  skipped, every other bit of the flags is unchanged, and the remaining formats are
  delivered to \<^verbatim>\<open>clipboardProvide\<close> in order with their lengths and their data intact.
\<close>

theorem readExtendedClipboard_provide:
  assumes "flags AND clipboardActionMask k = clipboardProvide k"
    and "clipboardProvide k AND clipboardCaps k = 0"
  shows "(len < 4 \<longrightarrow>
            readExtendedClipboard k inflate (sint maxCutText) len (bytes_of_U32 flags @ zdata @ rest) =
              Inl (Exception ''Invalid extended clipboard message''))
       \<and> (4 \<le> len \<longrightarrow> sint (maxCutText :: U32) < len \<longrightarrow>
          nat len \<le> length (bytes_of_U32 flags @ zdata @ rest) \<longrightarrow>
            readExtendedClipboard k inflate (sint maxCutText) len (bytes_of_U32 flags @ zdata @ rest) =
              Inr (None, drop (nat len) (bytes_of_U32 flags @ zdata @ rest)))
       \<and> (4 \<le> len \<longrightarrow> len \<le> sint maxCutText \<longrightarrow>
          length zdata = nat (len - 4) \<longrightarrow>
          inflate zdata = Some (provide_stream [0..<16] flags payload @ ztail) \<longrightarrow>
          (\<forall>i < 16. length (payload i) < 2 ^ 32) \<longrightarrow>
            (\<exists>flags'.
               readExtendedClipboard k inflate (sint maxCutText) len
                   (bytes_of_U32 flags @ zdata @ rest) =
                 Inr (Some (Call_clipboardProvide flags'
                        (map (\<lambda>i. length (payload i))
                             (provide_kept (sint maxCutText) [0..<16] flags payload))
                        (map payload (provide_kept (sint maxCutText) [0..<16] flags payload))),
                      rest)
               \<and> (\<forall>j. bit flags' j =
                      (bit flags j
                       \<and> \<not> (j < 16 \<and> sint maxCutText < int (length (payload j)))))))"
proof (intro conjI impI)
  assume "len < 4"
  then show "readExtendedClipboard k inflate (sint maxCutText) len (bytes_of_U32 flags @ zdata @ rest) =
              Inl (Exception ''Invalid extended clipboard message'')"
    by (rule readExtendedClipboard_short)
next
  assume "4 \<le> len" "sint maxCutText < len"
    "nat len \<le> length (bytes_of_U32 flags @ zdata @ rest)"
  then show "readExtendedClipboard k inflate (sint maxCutText) len (bytes_of_U32 flags @ zdata @ rest) =
              Inr (None, drop (nat len) (bytes_of_U32 flags @ zdata @ rest))"
    by (rule readExtendedClipboard_long)
next
  let ?mx = "sint maxCutText"
  assume l4: "4 \<le> len" and lm: "len \<le> ?mx"
    and zl: "length zdata = nat (len - 4)"
    and inf: "inflate zdata = Some (provide_stream [0..<16] flags payload @ ztail)"
    and pl: "\<forall>i < 16. length (payload i) < 2 ^ 32"
  have mx: "0 \<le> ?mx" "?mx < 2 ^ 31"
    using l4 lm sint_U32_range [of maxCutText] by simp_all
  let ?f' = "clearOversized ?mx payload [0..<16] flags"
  have b: "\<forall>i \<in> set [0..<16]. length (payload i) < 2 ^ 32" using pl by simp
  have loop: "readProvideLoop ?mx [0..<16] flags [] []
                (provide_stream [0..<16] flags payload @ ztail) =
              Inr (?f', map (\<lambda>i. length (payload i)) (provide_kept ?mx [0..<16] flags payload),
                   map payload (provide_kept ?mx [0..<16] flags payload), ztail)"
    using readProvideLoop_stream [OF mx distinct_upt b, of flags "[]" "[]" ztail]
    by simp
  have "readExtendedClipboard k inflate ?mx len (bytes_of_U32 flags @ zdata @ rest) =
          Inr (Some (Call_clipboardProvide ?f'
                 (map (\<lambda>i. length (payload i)) (provide_kept ?mx [0..<16] flags payload))
                 (map payload (provide_kept ?mx [0..<16] flags payload))), rest)"
    using assms l4 lm zl inf
    by (simp add: readExtendedClipboard_def zis_setUnderlying_def is_readU32_bytes_of_U32 Let_def
        is_readBytes_def
        loop del: upt_Suc)
  moreover have "\<forall>j. bit ?f' j =
                (bit flags j \<and> \<not> (j < 16 \<and> ?mx < int (length (payload j))))"
    using bit_clearOversized [OF distinct_upt, of ?mx payload 0 16 flags] by simp
  ultimately show "\<exists>flags'.
               readExtendedClipboard k inflate (sint maxCutText) len
                   (bytes_of_U32 flags @ zdata @ rest) =
                 Inr (Some (Call_clipboardProvide flags'
                        (map (\<lambda>i. length (payload i))
                             (provide_kept (sint maxCutText) [0..<16] flags payload))
                        (map payload (provide_kept (sint maxCutText) [0..<16] flags payload))),
                      rest)
               \<and> (\<forall>j. bit flags' j =
                      (bit flags j
                       \<and> \<not> (j < 16 \<and> sint maxCutText < int (length (payload j)))))"
    by blast
qed

text \<open>
  A compressed message of 18 bytes, format 0 with 21 bytes and format 1 with 2 bytes.
  With a maximum of 20 bytes bit 0 is cleared and format 1 is delivered; with a maximum
  of 17 bytes the message is skipped; announced with a length of 3 it is refused.
\<close>

theorem readExtendedClipboard_provide_witness:
  "(0x10000003 :: U32) AND clipboardActionMask rfbProtocol = clipboardProvide rfbProtocol
   \<and> clipboardProvide rfbProtocol AND clipboardCaps rfbProtocol = 0
   \<and> (4::int) \<le> 18 \<and> 18 \<le> sint (20 :: U32)
   \<and> length [3, 0, 1, 21, 21, 0x41, 3, 0, 1, 2, 1, 104, 1, 105 :: byte] = nat (18 - 4)
   \<and> rle_inflate [3, 0, 1, 21, 21, 0x41, 3, 0, 1, 2, 1, 104, 1, 105] =
       Some (provide_stream [0..<16] 0x10000003 twoFormats @ [])
   \<and> provide_kept 20 [0..<16] 0x10000003 twoFormats = [1]
   \<and> readExtendedClipboard rfbProtocol rle_inflate 20 18
         ([0x10, 0, 0, 3] @ [3, 0, 1, 21, 21, 0x41, 3, 0, 1, 2, 1, 104, 1, 105] @ [7]) =
       Inr (Some (Call_clipboardProvide 0x10000002 [2] [[104, 105]]), [7])
   \<and> sint (17 :: U32) < 18
   \<and> readExtendedClipboard rfbProtocol rle_inflate 17 18
         ([0x10, 0, 0, 3] @ [3, 0, 1, 21, 21, 0x41, 3, 0, 1, 2, 1, 104, 1, 105] @ [7]) =
       Inr (None, [7])
   \<and> readExtendedClipboard rfbProtocol rle_inflate 20 3
         ([0x10, 0, 0, 3] @ [3, 0, 1, 21, 21, 0x41, 3, 0, 1, 2, 1, 104, 1, 105] @ [7]) =
       Inl (Exception ''Invalid extended clipboard message'')"
proof -
  let ?zd = "[3, 0, 1, 21, 21, 0x41, 3, 0, 1, 2, 1, 104, 1, 105 :: byte]"
  have h5: "(0x10000003 :: U32) AND clipboardActionMask rfbProtocol = clipboardProvide rfbProtocol"
    by (simp add: rfbProtocol_def)
  have h6: "clipboardProvide rfbProtocol AND clipboardCaps rfbProtocol = 0"
    by (simp add: rfbProtocol_def)
  have h7: "length ?zd = nat (18 - 4)" by simp
  have h8: "rle_inflate ?zd = Some (provide_stream [0..<16] 0x10000003 twoFormats @ [])"
    by code_simp
  have h9: "\<forall>i < 16. length (twoFormats i) < 2 ^ 32" by (simp add: twoFormats_def)
  have kept: "provide_kept 20 [0..<16] 0x10000003 twoFormats = [1]" by code_simp
  have b: "bytes_of_U32 0x10000003 = [0x10, 0, 0, 3]" by (simp add: bytes_of_U32_def)
  have s20: "sint (20 :: U32) = 20" and s17: "sint (17 :: U32) = 17" by simp_all
  from readExtendedClipboard_provide [where maxCutText = 20 and len = 18
      and flags = "0x10000003" and k = rfbProtocol and zdata = ?zd and inflate = rle_inflate
      and payload = twoFormats and ztail = "[]" and rest = "[7]", OF h5 h6] h7 h8 h9
  obtain flags' where
    r: "readExtendedClipboard rfbProtocol rle_inflate 20 18 ([0x10, 0, 0, 3] @ ?zd @ [7]) =
          Inr (Some (Call_clipboardProvide flags' [2] [[104, 105]]), [7])"
    and f: "\<forall>j. bit flags' j =
              (bit (0x10000003 :: U32) j \<and> \<not> (j < 16 \<and> 20 < int (length (twoFormats j))))"
    unfolding s20 kept b by (auto simp: twoFormats_def)
  have d: "readExtendedClipboard rfbProtocol rle_inflate 20 18 ([0x10, 0, 0, 3] @ ?zd @ [7]) =
          Inr (Some (Call_clipboardProvide 0x10000002 [2] [[104, 105]]), [7])"
    by code_simp
  from readExtendedClipboard_provide [where maxCutText = 17 and len = 18
      and flags = "0x10000003" and k = rfbProtocol and zdata = ?zd and inflate = rle_inflate
      and rest = "[7]", OF h5 h6]
  have l: "readExtendedClipboard rfbProtocol rle_inflate 17 18 ([0x10, 0, 0, 3] @ ?zd @ [7]) =
          Inr (None, [7])"
    unfolding s17 b by simp
  from readExtendedClipboard_provide [where maxCutText = 20 and len = 3
      and flags = "0x10000003" and k = rfbProtocol and zdata = ?zd and inflate = rle_inflate
      and rest = "[7]", OF h5 h6]
  have "readExtendedClipboard rfbProtocol rle_inflate 20 3 ([0x10, 0, 0, 3] @ ?zd @ [7]) =
          Inl (Exception ''Invalid extended clipboard message'')"
    unfolding s20 b by simp
  with l r d h5 h6 h7 h8 kept show ?thesis by simp
qed

text \<open>
  C7, as the claim words it (the remaining formats are delivered), fails when the message
  itself is longer than the maximum: with a maximum of 17 bytes the message of 18 bytes
  above is dropped whole, and format 1, whose two bytes are within the maximum, is not
  delivered.
\<close>

theorem readExtendedClipboard_provide_long_counterexample:
  "readExtendedClipboard rfbProtocol rle_inflate 17 18
       ([0x10, 0, 0, 3] @ [3, 0, 1, 21, 21, 0x41, 3, 0, 1, 2, 1, 104, 1, 105] @ [7]) =
     Inr (None, [7])
   \<and> (0x10000003 :: U32) AND clipboardActionMask rfbProtocol = clipboardProvide rfbProtocol
   \<and> rle_inflate [3, 0, 1, 21, 21, 0x41, 3, 0, 1, 2, 1, 104, 1, 105] =
       Some (provide_stream [0..<16] 0x10000003 twoFormats)
   \<and> bit (0x10000003 :: U32) 1
   \<and> twoFormats 1 = [104, 105]
   \<and> int (length (twoFormats 1)) \<le> 17"
  by code_simp

text \<open>
  C5, as the code has it. \<^verbatim>\<open>writeFence\<close> raises when the peer has no fences; each of
  the five clipboard writers raises when the peer has no extended clipboard;
  \<^verbatim>\<open>writeClipboardRequest\<close>, \<^verbatim>\<open>Peek\<close>, \<^verbatim>\<open>Notify\<close> and \<^verbatim>\<open>Provide\<close> also raise when
  their action bit is missing from \<^verbatim>\<open>cp.clipboardFlags()\<close>. Every such failure leaves the
  output stream as it was. \<^verbatim>\<open>writeClipboardCaps\<close> checks no action bit: with the extended
  clipboard supported it raises no exception whatever the peer's flags are.
\<close>

theorem write_capability_checks:
  "(\<not> supportsFence cp \<longrightarrow>
      writeFence k cp client flags len data os =
        (Some (Exception ''Peer does not support fences''), os))
   \<and> (\<not> supportsExtendedClipboard cp \<longrightarrow>
      writeClipboardCaps k cp client caps lengths os =
        (Some (Exception ''Peer does not support extended clipboard''), os))
   \<and> (supportsExtendedClipboard cp \<longrightarrow>
      fst (writeClipboardCaps k cp client caps lengths os) = None
      \<or> fst (writeClipboardCaps k cp client caps lengths os) = Some ArrayOverrun)
   \<and> (\<not> supportsExtendedClipboard cp \<or> clipboardFlags cp AND clipboardRequest k = 0 \<longrightarrow>
      (\<exists>msg. writeClipboardRequest k cp client flags os = (Some (Exception msg), os)))
   \<and> (\<not> supportsExtendedClipboard cp \<or> clipboardFlags cp AND clipboardPeek k = 0 \<longrightarrow>
      (\<exists>msg. writeClipboardPeek k cp client flags os = (Some (Exception msg), os)))
   \<and> (\<not> supportsExtendedClipboard cp \<or> clipboardFlags cp AND clipboardNotify k = 0 \<longrightarrow>
      (\<exists>msg. writeClipboardNotify k cp client flags os = (Some (Exception msg), os)))
   \<and> (\<not> supportsExtendedClipboard cp \<or> clipboardFlags cp AND clipboardProvide k = 0 \<longrightarrow>
      (\<exists>msg. writeClipboardProvide k deflate cp client flags sizes bufs os =
               (Some (Exception msg), os)))"
proof (intro conjI impI)
  assume "supportsExtendedClipboard cp"
  then show "fst (writeClipboardCaps k cp client caps lengths os) = None
      \<or> fst (writeClipboardCaps k cp client caps lengths os) = Some ArrayOverrun"
    using writeCapsLengths_error
      [of "[0..<16]" caps lengths
          "os_writeU32 (caps OR clipboardCaps k)
             (os_writeS32 (- (4 + 4 * int (length (filter (\<lambda>i. caps AND push_bit i 1 \<noteq> 0) [0..<16]))))
               (os_pad 3 (startMsg (if client then msgTypeClientCutText k
                                    else msgTypeServerCutText k) os)))"]
    by (auto simp add: writeClipboardCaps_def Let_def simp del: upt_Suc split: prod.splits option.splits)
qed (auto simp: writeFence_def writeClipboardCaps_def writeClipboardRequest_def
       writeClipboardPeek_def writeClipboardNotify_def writeClipboardProvide_def)

text \<open>The checks at a peer without fences and at a peer without the extended clipboard.\<close>

theorem write_capability_checks_witness:
  "\<not> supportsFence peerWithoutCapsBit
   \<and> writeFence rfbProtocol peerWithoutCapsBit False 1 0 [] [7] =
       (Some (Exception ''Peer does not support fences''), [7])
   \<and> \<not> supportsExtendedClipboard peerWithFence
   \<and> writeClipboardCaps rfbProtocol peerWithFence False 1 [20] [7] =
       (Some (Exception ''Peer does not support extended clipboard''), [7])
   \<and> clipboardFlags peerWithFence AND clipboardRequest rfbProtocol = 0
   \<and> (\<exists>msg. writeClipboardRequest rfbProtocol peerWithFence False 1 [7] =
              (Some (Exception msg), [7]))"
proof -
  have a: "\<not> supportsFence peerWithoutCapsBit" by (simp add: peerWithoutCapsBit_def)
  have b: "\<not> supportsExtendedClipboard peerWithFence" by (simp add: peerWithFence_def)
  have c: "clipboardFlags peerWithFence AND clipboardRequest rfbProtocol = 0"
    by (simp add: peerWithFence_def)
  from a b c
    write_capability_checks [where cp = peerWithoutCapsBit and k = rfbProtocol
      and client = False and flags = 1 and len = 0 and data = "[]" and os = "[7]"]
    write_capability_checks [where cp = peerWithFence and k = rfbProtocol
      and client = False and flags = 1 and caps = 1 and lengths = "[20]" and os = "[7]"]
  show ?thesis by simp
qed

text \<open>
  C5, as the claim words it (each clipboard action checks its action bit), fails for
  \<^verbatim>\<open>writeClipboardCaps\<close>: for a peer whose flags lack the \<^verbatim>\<open>Caps\<close> bit it writes the
  whole message.
\<close>

theorem writeClipboardCaps_action_bit_counterexample:
  "supportsExtendedClipboard peerWithoutCapsBit
   \<and> clipboardFlags peerWithoutCapsBit AND clipboardCaps rfbProtocol = 0
   \<and> writeClipboardCaps rfbProtocol peerWithoutCapsBit False 1 [20] [] =
       (None, [3, 0, 0, 0, 0xff, 0xff, 0xff, 0xf8, 1, 0, 0, 1, 0, 0, 0, 20])"
  by code_simp

section \<open>The rectangle analyser: claim\<close>

text \<open>
  What the code does: with a palette of two colours or more, the RLE variant of the role
  is chosen exactly when \<open>rleRuns \<le> area * 2\<close>.
\<close>

lemma prepareRect_rle_rule:
  assumes "analyse p r (sint (prepareRect_maxColours encs active cp r)) = (True, runs, pal)"
    and "2 \<le> length pal"
  shows "(prep_type (prepareRect encs active analyse cp r p)
            \<in> {encoderBitmapRLE, encoderIndexedRLE}) = (runs \<le> area r * 2)"
proof -
  from assms(2) obtain a b rest where "pal = a # b # rest"
    by (cases pal; cases "tl pal") auto
  then show ?thesis
    using assms(1) by (cases rest) (simp_all add: prepareRect_def Let_def)
qed

text \<open>
  C1 (RLE is chosen if and only if \<open>rleRuns * 2 \<le> area\<close>) at a rectangle of 4 by 4 pixels
  with two colours and 16 runs: \<open>16 * 2 \<le> 16\<close> is false, and the code chooses the RLE
  variant \<^verbatim>\<open>encoderBitmapRLE\<close>, because it tests \<^verbatim>\<open>rleRuns <= rect.area() * 2\<close>.
\<close>

theorem prepareRect_useRLE_evaluated:
  "prep_type (prepareRect stockEncoders allZRLE stripesAnalysis plainPeer
       \<lparr>tl_x = 0, tl_y = 0, br_x = 4, br_y = 4\<rparr> ()) = encoderBitmapRLE
   \<and> prep_palette (prepareRect stockEncoders allZRLE stripesAnalysis plainPeer
       \<lparr>tl_x = 0, tl_y = 0, br_x = 4, br_y = 4\<rparr> ()) = [0, 0xffffff]
   \<and> stripesAnalysis () \<lparr>tl_x = 0, tl_y = 0, br_x = 4, br_y = 4\<rparr>
        (sint (prepareRect_maxColours stockEncoders allZRLE plainPeer
                 \<lparr>tl_x = 0, tl_y = 0, br_x = 4, br_y = 4\<rparr>)) = (True, 16, [0, 0xffffff])
   \<and> area \<lparr>tl_x = 0, tl_y = 0, br_x = 4, br_y = 4\<rparr> = 16
   \<and> \<not> (16 :: int) * 2 \<le> 16"
  by (simp add: prepareRect_def stripesAnalysis_def area_def width_def height_def Let_def)

section \<open>One update: helper facts\<close>










section \<open>One update: claim\<close>



section \<open>The worker threads: helper facts\<close>

lemma classInvariantI:
  assumes "\<And>t p. workers s t = EncodingOrdered k p \<Longrightarrow> \<exists>rest. encoderQueue s k = p # rest"
    and "\<And>t p t' p'. workers s t = EncodingOrdered k p \<Longrightarrow>
           workers s t' = EncodingOrdered k p' \<Longrightarrow> t' = t"
    and "\<And>q rest. encoderQueue s k = q # rest \<Longrightarrow> \<exists>t. workers s t = EncodingOrdered k q"
    and "classEncoded s k @ tl (encoderQueue s k) = classQueued s k"
  shows "classInvariant s k"
  unfolding classInvariant_def using assms by blast

lemma classInvariant_head:
  "classInvariant s k \<Longrightarrow> workers s t = EncodingOrdered k p \<Longrightarrow> \<exists>rest. encoderQueue s k = p # rest"
  unfolding classInvariant_def by blast

lemma classInvariant_unique:
  "classInvariant s k \<Longrightarrow> workers s t = EncodingOrdered k p \<Longrightarrow>
   workers s t' = EncodingOrdered k p' \<Longrightarrow> t' = t"
  unfolding classInvariant_def by blast

lemma classInvariant_owner:
  "classInvariant s k \<Longrightarrow> encoderQueue s k = q # rest \<Longrightarrow> \<exists>t. workers s t = EncodingOrdered k q"
  unfolding classInvariant_def by blast

lemma classInvariant_history:
  "classInvariant s k \<Longrightarrow> classEncoded s k @ tl (encoderQueue s k) = classQueued s k"
  unfolding classInvariant_def by blast

lemma classInvariant_frame:
  assumes "\<And>u p. (workers s' u = EncodingOrdered k p) = (workers s u = EncodingOrdered k p)"
    and "encoderQueue s' k = encoderQueue s k"
    and "classEncoded s' k = classEncoded s k"
    and "classQueued s' k = classQueued s k"
  shows "classInvariant s' k = classInvariant s k"
  by (simp add: classInvariant_def assms)

lemma classInvariant_behind:
  assumes inv: "classInvariant s k" and w: "workers s t = Analysing e" and ne: "encoderQueue s k \<noteq> []"
    and s': "s' = s\<lparr>encoderQueue := (encoderQueue s)(k := encoderQueue s k @ [prep]),
          workers := (workers s)(t := Idle),
          classQueued := (classQueued s)(k := classQueued s k @ [prep])\<rparr>"
  shows "classInvariant s' k"
proof (rule classInvariantI)
  have same: "\<And>u p. (workers s' u = EncodingOrdered k p) = (workers s u = EncodingOrdered k p)"
    using w by (simp add: s')
  have q': "encoderQueue s' k = encoderQueue s k @ [prep]" by (simp add: s')
  fix u p
  assume "workers s' u = EncodingOrdered k p"
  then have o: "workers s u = EncodingOrdered k p" by (simp only: same)
  from classInvariant_head [OF inv o] obtain rest where "encoderQueue s k = p # rest" ..
  then show "\<exists>rest. encoderQueue s' k = p # rest" by (simp add: q')
  fix u' p'
  assume "workers s' u' = EncodingOrdered k p'"
  then have "workers s u' = EncodingOrdered k p'" by (simp only: same)
  with inv o show "u' = u" by (rule classInvariant_unique)
next
  have same: "\<And>u p. (workers s' u = EncodingOrdered k p) = (workers s u = EncodingOrdered k p)"
    using w by (simp add: s')
  fix q rest
  assume "encoderQueue s' k = q # rest"
  then obtain rest0 where "encoderQueue s k = q # rest0"
    using ne by (cases "encoderQueue s k") (simp_all add: s')
  from classInvariant_owner [OF inv this] show "\<exists>u. workers s' u = EncodingOrdered k q"
    by (simp only: same)
next
  show "classEncoded s' k @ tl (encoderQueue s' k) = classQueued s' k"
    using classInvariant_history [OF inv] ne by (simp add: s')
qed

lemma classInvariant_own:
  assumes inv: "classInvariant s k" and w: "workers s t = Analysing e" and em: "encoderQueue s k = []"
    and s': "s' = s\<lparr>encoderQueue := (encoderQueue s)(k := [prep]),
          workers := (workers s)(t := EncodingOrdered k prep),
          classQueued := (classQueued s)(k := classQueued s k @ [prep]),
          classEncoded := (classEncoded s)(k := classEncoded s k @ [prep])\<rparr>"
  shows "classInvariant s' k"
proof (rule classInvariantI)
  have none: "\<And>u p. workers s u \<noteq> EncodingOrdered k p"
    using classInvariant_head [OF inv] em by fastforce
  have only: "\<And>u p. workers s' u = EncodingOrdered k p \<Longrightarrow> u = t \<and> p = prep"
    using none by (simp add: s' split: if_splits)
  fix u p
  assume o: "workers s' u = EncodingOrdered k p"
  with only have "p = prep" by blast
  then show "\<exists>rest. encoderQueue s' k = p # rest" by (simp add: s')
  fix u' p'
  assume "workers s' u' = EncodingOrdered k p'"
  with only o show "u' = u" by blast
next
  fix q rest
  assume "encoderQueue s' k = q # rest"
  then have "q = prep" by (simp add: s')
  then have "workers s' t = EncodingOrdered k q" by (simp add: s')
  then show "\<exists>u. workers s' u = EncodingOrdered k q" ..
next
  show "classEncoded s' k @ tl (encoderQueue s' k) = classQueued s' k"
    using classInvariant_history [OF inv] em by (simp add: s')
qed

lemma classInvariant_next:
  assumes inv: "classInvariant s k" and w: "workers s t = EncodingOrdered k prep"
    and qu: "encoderQueue s k = q # nxt # rest"
    and s': "s' = s\<lparr>outputQueue := outs,
          encoderQueue := (encoderQueue s)(k := nxt # rest),
          workers := (workers s)(t := EncodingOrdered k nxt),
          classEncoded := (classEncoded s)(k := classEncoded s k @ [nxt])\<rparr>"
  shows "classInvariant s' k"
proof (rule classInvariantI)
  have only: "\<And>u p. workers s' u = EncodingOrdered k p \<Longrightarrow> u = t \<and> p = nxt"
  proof -
    fix u p
    assume o: "workers s' u = EncodingOrdered k p"
    show "u = t \<and> p = nxt"
    proof (cases "u = t")
      case True
      with o show ?thesis by (simp add: s')
    next
      case False
      with o have "workers s u = EncodingOrdered k p" by (simp add: s')
      with inv w have "u = t" by (rule classInvariant_unique)
      with False show ?thesis by simp
    qed
  qed
  fix u p
  assume o: "workers s' u = EncodingOrdered k p"
  with only have "p = nxt" by blast
  then show "\<exists>rest. encoderQueue s' k = p # rest" by (simp add: s')
  fix u' p'
  assume "workers s' u' = EncodingOrdered k p'"
  with only o show "u' = u" by blast
next
  fix q' rest'
  assume "encoderQueue s' k = q' # rest'"
  then have "q' = nxt" by (simp add: s')
  then have "workers s' t = EncodingOrdered k q'" by (simp add: s')
  then show "\<exists>u. workers s' u = EncodingOrdered k q'" ..
next
  show "classEncoded s' k @ tl (encoderQueue s' k) = classQueued s' k"
    using classInvariant_history [OF inv] qu by (simp add: s')
qed

lemma classInvariant_leave:
  assumes inv: "classInvariant s k" and w: "workers s t = EncodingOrdered k prep"
    and qu: "encoderQueue s k = [q]"
    and s': "s' = s\<lparr>outputQueue := outs,
          encoderQueue := (encoderQueue s)(k := []),
          workers := (workers s)(t := Idle)\<rparr>"
  shows "classInvariant s' k"
proof (rule classInvariantI)
  have none: "\<And>u p. workers s' u \<noteq> EncodingOrdered k p"
  proof
    fix u p
    assume o: "workers s' u = EncodingOrdered k p"
    then have "u \<noteq> t" by (auto simp: s')
    with o have "workers s u = EncodingOrdered k p" by (simp add: s')
    with inv w have "u = t" by (rule classInvariant_unique)
    with \<open>u \<noteq> t\<close> show False by simp
  qed
  fix u p
  assume o: "workers s' u = EncodingOrdered k p"
  with none show "\<exists>rest. encoderQueue s' k = p # rest" by blast
  fix u' p'
  assume "workers s' u' = EncodingOrdered k p'"
  with none show "u' = u" by blast
next
  fix q' rest'
  assume "encoderQueue s' k = q' # rest'"
  then show "\<exists>u. workers s' u = EncodingOrdered k q'" by (simp add: s')
next
  show "classEncoded s' k @ tl (encoderQueue s' k) = classQueued s' k"
    using classInvariant_history [OF inv] qu by (simp add: s')
qed

lemma step_classInvariant:
  assumes st: "step env s s'" and inv: "classInvariant s k" and ord: "ordered (encoders env k)"
  shows "classInvariant s' k"
  using st
proof cases
  case (driver_queue r p)
  have "classInvariant s' k = classInvariant s k"
    by (rule classInvariant_frame) (simp_all add: driver_queue queueSubRect_def)
  with inv show ?thesis by simp
next
  case (worker_pop t e es)
  have "classInvariant s' k = classInvariant s k"
    by (rule classInvariant_frame) (use worker_pop in auto)
  with inv show ?thesis by simp
next
  case (worker_queue_behind t e prep klass)
  show ?thesis
  proof (cases "k = klass")
    case True
    show ?thesis
      by (rule classInvariant_behind [OF inv, of t e s' prep]) (use worker_queue_behind True in simp_all)
  next
    case False
    have "classInvariant s' k = classInvariant s k"
      by (rule classInvariant_frame) (use worker_queue_behind False in auto)
    with inv show ?thesis by simp
  qed
next
  case (worker_own t e prep klass)
  show ?thesis
  proof (cases "k = klass")
    case True
    show ?thesis
      by (rule classInvariant_own [OF inv, of t e s' prep]) (use worker_own True in simp_all)
  next
    case False
    have "classInvariant s' k = classInvariant s k"
      by (rule classInvariant_frame) (use worker_own False in auto)
    with inv show ?thesis by simp
  qed
next
  case (worker_plain t e prep klass)
  from worker_plain(5) ord have ne: "k \<noteq> klass" by blast
  have "classInvariant s' k = classInvariant s k"
    by (rule classInvariant_frame) (use worker_plain(1,2) ne in auto)
  with inv show ?thesis by simp
next
  case (owner_next t klass prep q nxt rest)
  show ?thesis
  proof (cases "k = klass")
    case True
    show ?thesis
      by (rule classInvariant_next [OF inv, of t prep q nxt rest s'
            "outputQueue s @ [encodeRect env (activeEncoders s) prep]"])
         (use owner_next True in simp_all)
  next
    case False
    have "classInvariant s' k = classInvariant s k"
      by (rule classInvariant_frame) (use owner_next False in auto)
    with inv show ?thesis by simp
  qed
next
  case (owner_leave t klass prep q)
  show ?thesis
  proof (cases "k = klass")
    case True
    show ?thesis
      by (rule classInvariant_leave [OF inv, of t prep q s'
            "outputQueue s @ [encodeRect env (activeEncoders s) prep]"])
         (use owner_leave True in simp_all)
  next
    case False
    have "classInvariant s' k = classInvariant s k"
      by (rule classInvariant_frame) (use owner_leave False in auto)
    with inv show ?thesis by simp
  qed
next
  case (worker_plain_done t prep)
  have "classInvariant s' k = classInvariant s k"
    by (rule classInvariant_frame) (use worker_plain_done in auto)
  with inv show ?thesis by simp
next
  case (driver_drain out outs)
  have "classInvariant s' k = classInvariant s k"
    by (rule classInvariant_frame) (simp_all add: driver_drain writeOutput_def)
  with inv show ?thesis by simp
qed

lemma classInvariant_idle: "classInvariant (idleManager active) k"
  by (simp add: classInvariant_def idleManager_def)

lemma reachable_classInvariant:
  assumes "(step env)\<^sup>*\<^sup>* (idleManager active) s" and "ordered (encoders env k)"
  shows "classInvariant s k"
  using assms(1)
proof (induction rule: rtranclp_induct)
  case base
  show ?case by (rule classInvariant_idle)
next
  case (step y z)
  show ?case by (rule step_classInvariant [OF step.hyps(2) step.IH assms(2)])
qed

lemma rolesInvariantI:
  assumes "activeEncoders s = active"
    and "\<And>t p. workers s t = EncodingPlain p \<Longrightarrow>
           \<not> ordered (encoders env (active (prep_type p)))"
    and "\<And>t k p. workers s t = EncodingOrdered k p \<Longrightarrow> active (prep_type p) = k"
    and "\<And>k p. p \<in> set (encoderQueue s k) \<Longrightarrow> active (prep_type p) = k"
  shows "rolesInvariant env active s"
  unfolding rolesInvariant_def using assms by blast

lemma rolesInvariant_active: "rolesInvariant env active s \<Longrightarrow> activeEncoders s = active"
  unfolding rolesInvariant_def by blast

lemma rolesInvariant_plain:
  "rolesInvariant env active s \<Longrightarrow> workers s t = EncodingPlain p \<Longrightarrow>
   \<not> ordered (encoders env (active (prep_type p)))"
  unfolding rolesInvariant_def by blast

lemma rolesInvariant_owner:
  "rolesInvariant env active s \<Longrightarrow> workers s t = EncodingOrdered k p \<Longrightarrow>
   active (prep_type p) = k"
  unfolding rolesInvariant_def by blast

lemma rolesInvariant_queue:
  "rolesInvariant env active s \<Longrightarrow> p \<in> set (encoderQueue s k) \<Longrightarrow> active (prep_type p) = k"
  unfolding rolesInvariant_def by blast

lemma step_rolesInvariant:
  assumes st: "step env s s'" and inv: "rolesInvariant env active s"
  shows "rolesInvariant env active s'"
  using st
proof cases
  case (driver_queue r p)
  show ?thesis
    using inv unfolding rolesInvariant_def driver_queue by (simp add: queueSubRect_def)
next
  case (worker_pop t e es)
  show ?thesis
    using inv unfolding rolesInvariant_def worker_pop(1) by auto
next
  case (worker_queue_behind t e prep klass)
  have a: "activeEncoders s = active" using inv by (rule rolesInvariant_active)
  show ?thesis
  proof (rule rolesInvariantI)
    show "activeEncoders s' = active" using a by (simp add: worker_queue_behind(1))
  next
    fix u p assume "workers s' u = EncodingPlain p"
    then have "workers s u = EncodingPlain p"
      by (simp add: worker_queue_behind(1) split: if_splits)
    with inv show "\<not> ordered (encoders env (active (prep_type p)))" by (rule rolesInvariant_plain)
  next
    fix u k p assume "workers s' u = EncodingOrdered k p"
    then have "workers s u = EncodingOrdered k p"
      by (simp add: worker_queue_behind(1) split: if_splits)
    with inv show "active (prep_type p) = k" by (rule rolesInvariant_owner)
  next
    fix k p assume "p \<in> set (encoderQueue s' k)"
    then have "p \<in> set (encoderQueue s k) \<or> (k = klass \<and> p = prep)"
      by (auto simp: worker_queue_behind(1) split: if_splits)
    then show "active (prep_type p) = k"
      using rolesInvariant_queue [OF inv] worker_queue_behind(4) a by auto
  qed
next
  case (worker_own t e prep klass)
  have a: "activeEncoders s = active" using inv by (rule rolesInvariant_active)
  show ?thesis
  proof (rule rolesInvariantI)
    show "activeEncoders s' = active" using a by (simp add: worker_own(1))
  next
    fix u p assume "workers s' u = EncodingPlain p"
    then have "workers s u = EncodingPlain p"
      by (simp add: worker_own(1) split: if_splits)
    with inv show "\<not> ordered (encoders env (active (prep_type p)))" by (rule rolesInvariant_plain)
  next
    fix u k p assume "workers s' u = EncodingOrdered k p"
    then have "workers s u = EncodingOrdered k p \<or> (k = klass \<and> p = prep)"
      by (auto simp: worker_own(1) split: if_splits)
    then show "active (prep_type p) = k"
      using rolesInvariant_owner [OF inv] worker_own(4) a by auto
  next
    fix k p assume "p \<in> set (encoderQueue s' k)"
    then have "p \<in> set (encoderQueue s k) \<or> (k = klass \<and> p = prep)"
      by (auto simp: worker_own(1) split: if_splits)
    then show "active (prep_type p) = k"
      using rolesInvariant_queue [OF inv] worker_own(4) a by auto
  qed
next
  case (worker_plain t e prep klass)
  have a: "activeEncoders s = active" using inv by (rule rolesInvariant_active)
  show ?thesis
  proof (rule rolesInvariantI)
    show "activeEncoders s' = active" using a by (simp add: worker_plain(1))
  next
    fix u p assume "workers s' u = EncodingPlain p"
    then have "workers s u = EncodingPlain p \<or> p = prep"
      by (auto simp: worker_plain(1) split: if_splits)
    then show "\<not> ordered (encoders env (active (prep_type p)))"
      using rolesInvariant_plain [OF inv] worker_plain(4,5) a by auto
  next
    fix u k p assume "workers s' u = EncodingOrdered k p"
    then have "workers s u = EncodingOrdered k p"
      by (simp add: worker_plain(1) split: if_splits)
    with inv show "active (prep_type p) = k" by (rule rolesInvariant_owner)
  next
    fix k p assume "p \<in> set (encoderQueue s' k)"
    then have "p \<in> set (encoderQueue s k)" by (simp add: worker_plain(1))
    with inv show "active (prep_type p) = k" by (rule rolesInvariant_queue)
  qed
next
  case (owner_next t klass prep q nxt rest)
  have a: "activeEncoders s = active" using inv by (rule rolesInvariant_active)
  have nq: "nxt \<in> set (encoderQueue s klass)" by (simp add: owner_next(3))
  show ?thesis
  proof (rule rolesInvariantI)
    show "activeEncoders s' = active" using a by (simp add: owner_next(1))
  next
    fix u p assume "workers s' u = EncodingPlain p"
    then have "workers s u = EncodingPlain p"
      by (simp add: owner_next(1) split: if_splits)
    with inv show "\<not> ordered (encoders env (active (prep_type p)))" by (rule rolesInvariant_plain)
  next
    fix u k p assume "workers s' u = EncodingOrdered k p"
    then have "workers s u = EncodingOrdered k p \<or> (k = klass \<and> p = nxt)"
      by (auto simp: owner_next(1) split: if_splits)
    then show "active (prep_type p) = k"
      using rolesInvariant_owner [OF inv] rolesInvariant_queue [OF inv nq] by auto
  next
    fix k p assume "p \<in> set (encoderQueue s' k)"
    then have "p \<in> set (encoderQueue s k)"
      by (auto simp: owner_next(1,3) split: if_splits)
    with inv show "active (prep_type p) = k" by (rule rolesInvariant_queue)
  qed
next
  case (owner_leave t klass prep q)
  have a: "activeEncoders s = active" using inv by (rule rolesInvariant_active)
  show ?thesis
  proof (rule rolesInvariantI)
    show "activeEncoders s' = active" using a by (simp add: owner_leave(1))
  next
    fix u p assume "workers s' u = EncodingPlain p"
    then have "workers s u = EncodingPlain p"
      by (simp add: owner_leave(1) split: if_splits)
    with inv show "\<not> ordered (encoders env (active (prep_type p)))" by (rule rolesInvariant_plain)
  next
    fix u k p assume "workers s' u = EncodingOrdered k p"
    then have "workers s u = EncodingOrdered k p"
      by (simp add: owner_leave(1) split: if_splits)
    with inv show "active (prep_type p) = k" by (rule rolesInvariant_owner)
  next
    fix k p assume "p \<in> set (encoderQueue s' k)"
    then have "p \<in> set (encoderQueue s k)"
      by (auto simp: owner_leave(1,3) split: if_splits)
    with inv show "active (prep_type p) = k" by (rule rolesInvariant_queue)
  qed
next
  case (worker_plain_done t prep)
  have a: "activeEncoders s = active" using inv by (rule rolesInvariant_active)
  show ?thesis
  proof (rule rolesInvariantI)
    show "activeEncoders s' = active" using a by (simp add: worker_plain_done(1))
  next
    fix u p assume "workers s' u = EncodingPlain p"
    then have "workers s u = EncodingPlain p"
      by (simp add: worker_plain_done(1) split: if_splits)
    with inv show "\<not> ordered (encoders env (active (prep_type p)))" by (rule rolesInvariant_plain)
  next
    fix u k p assume "workers s' u = EncodingOrdered k p"
    then have "workers s u = EncodingOrdered k p"
      by (simp add: worker_plain_done(1) split: if_splits)
    with inv show "active (prep_type p) = k" by (rule rolesInvariant_owner)
  next
    fix k p assume "p \<in> set (encoderQueue s' k)"
    then have "p \<in> set (encoderQueue s k)" by (simp add: worker_plain_done(1))
    with inv show "active (prep_type p) = k" by (rule rolesInvariant_queue)
  qed
next
  case (driver_drain out outs)
  show ?thesis
    using inv unfolding rolesInvariant_def driver_drain(1) by (simp add: writeOutput_def)
qed

lemma rolesInvariant_idle: "rolesInvariant env active (idleManager active)"
  by (simp add: rolesInvariant_def idleManager_def)

lemma reachable_rolesInvariant:
  "(step env)\<^sup>*\<^sup>* (idleManager active) s \<Longrightarrow> rolesInvariant env active s"
proof (induction rule: rtranclp_induct)
  case base
  show ?case by (rule rolesInvariant_idle)
next
  case (step y z)
  show ?case by (rule step_rolesInvariant [OF step.hyps(2) step.IH])
qed

lemma step_first_pusher:
  assumes st: "step env s s'" and w': "workers s' t = EncodingOrdered k p"
  shows "(\<exists>q. workers s t = EncodingOrdered k q)
       \<or> (encoderQueue s k = [] \<and> encoderQueue s' k = [p])"
  using st
proof cases
  case (driver_queue r p)
  with w' show ?thesis by (simp add: queueSubRect_def)
next
  case (worker_pop u e es)
  with w' show ?thesis by (cases "t = u") simp_all
next
  case (worker_queue_behind u e prep klass)
  with w' show ?thesis by (cases "t = u") simp_all
next
  case (worker_own u e prep klass)
  with w' show ?thesis by (cases "t = u") auto
next
  case (worker_plain u e prep klass)
  with w' show ?thesis by (cases "t = u") simp_all
next
  case (owner_next u klass prep q nxt rest)
  with w' show ?thesis by (cases "t = u") simp_all
next
  case (owner_leave u klass prep q)
  with w' show ?thesis by (cases "t = u") simp_all
next
  case (worker_plain_done u prep)
  with w' show ?thesis by (cases "t = u") simp_all
next
  case (driver_drain out outs)
  with w' show ?thesis by (simp add: writeOutput_def)
qed

lemma step_owner_drains:
  assumes st: "step env s s'" and w: "workers s t = EncodingOrdered k p"
  shows "(\<exists>p'. workers s' t = EncodingOrdered k p') \<or> encoderQueue s' k = []"
  using st
proof cases
  case (driver_queue r p)
  with w show ?thesis by (simp add: queueSubRect_def)
next
  case (worker_pop u e es)
  with w show ?thesis by (cases "t = u") simp_all
next
  case (worker_queue_behind u e prep klass)
  with w show ?thesis by (cases "t = u") simp_all
next
  case (worker_own u e prep klass)
  with w show ?thesis by (cases "t = u") simp_all
next
  case (worker_plain u e prep klass)
  with w show ?thesis by (cases "t = u") simp_all
next
  case (owner_next u klass prep q nxt rest)
  with w show ?thesis by (cases "t = u") simp_all
next
  case (owner_leave u klass prep q)
  with w show ?thesis by (cases "t = u") simp_all
next
  case (worker_plain_done u prep)
  with w show ?thesis by (cases "t = u") simp_all
next
  case (driver_drain out outs)
  with w show ?thesis by (simp add: writeOutput_def)
qed

lemma encodesFor_ordered:
  assumes r: "rolesInvariant env active s" and c: "classInvariant s k"
    and ord: "ordered (encoders env k)" and e: "encodesFor s t k"
  shows "\<exists>p rest. workers s t = EncodingOrdered k p \<and> encoderQueue s k = p # rest"
proof -
  have a: "activeEncoders s = active" using r by (rule rolesInvariant_active)
  show ?thesis
  proof (cases "workers s t")
    case Idle
    with e show ?thesis by (simp add: encodesFor_def)
  next
    case (Analysing x)
    with e show ?thesis by (simp add: encodesFor_def)
  next
    case (EncodingOrdered klass p)
    with e a have "active (prep_type p) = k" by (simp add: encodesFor_def)
    moreover from rolesInvariant_owner [OF r EncodingOrdered] have "active (prep_type p) = klass" .
    ultimately have w: "workers s t = EncodingOrdered k p" using EncodingOrdered by simp
    from classInvariant_head [OF c w] obtain rest where "encoderQueue s k = p # rest" ..
    with w show ?thesis by blast
  next
    case (EncodingPlain p)
    with e a have "active (prep_type p) = k" by (simp add: encodesFor_def)
    with rolesInvariant_plain [OF r EncodingPlain] ord show ?thesis by simp
  qed
qed

section \<open>The worker threads: claim\<close>

text \<open>
  C9, as the code has it. In every state the manager can reach from idle, for every
  encoder class \<open>k\<close> whose flags include \<^verbatim>\<open>EncoderOrdered\<close>: at most one worker is encoding
  an entry of class \<open>k\<close>; a worker that does is the owner of the queue of \<open>k\<close> and encodes
  the head of that queue, so that no entry of class \<open>k\<close> is encoded on the plain branch;
  and the entries of class \<open>k\<close> whose encoding has started, followed by those waiting on
  the queue behind its head, are the entries that were pushed onto the queue of \<open>k\<close>, in
  the order in which they were pushed: they are encoded in exactly the order in which
  they were pushed onto the per-class queue (the order in which their analyses ended).
  Over one step: a worker becomes the encoder of class \<open>k\<close> only by pushing its entry onto
  the empty queue of \<open>k\<close> (the first pusher owns the queue), and it stays the encoder of
  \<open>k\<close> until the queue is empty (it drains the queue).
\<close>

theorem ordered_class_exclusive_fifo:
  assumes "(step env)\<^sup>*\<^sup>* (idleManager active) s" and "ordered (encoders env k)"
  shows "(\<forall>t t'. encodesFor s t k \<longrightarrow> encodesFor s t' k \<longrightarrow> t = t')
       \<and> (\<forall>t. encodesFor s t k \<longrightarrow>
             (\<exists>p rest. workers s t = EncodingOrdered k p \<and> encoderQueue s k = p # rest))
       \<and> (\<forall>t p. workers s t = EncodingOrdered k p \<longrightarrow> encodesFor s t k)
       \<and> classEncoded s k @ tl (encoderQueue s k) = classQueued s k
       \<and> (\<forall>s' t p. step env s s' \<longrightarrow> workers s' t = EncodingOrdered k p \<longrightarrow>
             (\<exists>q. workers s t = EncodingOrdered k q)
             \<or> (encoderQueue s k = [] \<and> encoderQueue s' k = [p]))
       \<and> (\<forall>s' t p. step env s s' \<longrightarrow> workers s t = EncodingOrdered k p \<longrightarrow>
             (\<exists>p'. workers s' t = EncodingOrdered k p') \<or> encoderQueue s' k = [])"
proof (intro conjI allI impI)
  note c = reachable_classInvariant [OF assms]
  note r = reachable_rolesInvariant [OF assms(1)]
  fix t t'
  assume "encodesFor s t k" "encodesFor s t' k"
  then obtain p p' where "workers s t = EncodingOrdered k p" "workers s t' = EncodingOrdered k p'"
    using encodesFor_ordered [OF r c assms(2)] by blast
  then show "t = t'" using classInvariant_unique [OF c] by blast
next
  note c = reachable_classInvariant [OF assms]
  note r = reachable_rolesInvariant [OF assms(1)]
  fix t
  assume "encodesFor s t k"
  then show "\<exists>p rest. workers s t = EncodingOrdered k p \<and> encoderQueue s k = p # rest"
    by (rule encodesFor_ordered [OF r c assms(2)])
next
  note r = reachable_rolesInvariant [OF assms(1)]
  fix t p
  assume w: "workers s t = EncodingOrdered k p"
  from rolesInvariant_owner [OF r w] rolesInvariant_active [OF r]
  show "encodesFor s t k" by (simp add: encodesFor_def w)
next
  note c = reachable_classInvariant [OF assms]
  show "classEncoded s k @ tl (encoderQueue s k) = classQueued s k"
    by (rule classInvariant_history [OF c])
next
  fix s' t p
  assume "step env s s'" "workers s' t = EncodingOrdered k p"
  then show "(\<exists>q. workers s t = EncodingOrdered k q)
             \<or> (encoderQueue s k = [] \<and> encoderQueue s' k = [p])"
    by (rule step_first_pusher)
next
  fix s' t p
  assume "step env s s'" "workers s t = EncodingOrdered k p"
  then show "(\<exists>p'. workers s' t = EncodingOrdered k p') \<or> encoderQueue s' k = []"
    by (rule step_owner_drains)
qed

lemma prepOf_type:
  "prep_type (prepOf rectA) = encoderBitmapRLE" "prep_type (prepOf rectB) = encoderBitmapRLE"
  by (simp_all add: prepOf_def prepareRect_def stripesAnalysis_def Let_def rectA_def rectB_def
      area_def width_def height_def)

lemma prepOf_rect: "prep_rect (prepOf r) = r"
  by (simp add: prepOf_def prepareRect_def stripesAnalysis_def Let_def)

lemma invertedRun_steps:
  "i < 7 \<Longrightarrow> step demoEnv (invertedRun ! i) (invertedRun ! Suc i)"
proof -
  assume "i < 7"
  then consider "i = 0" | "i = 1" | "i = 2" | "i = 3" | "i = 4" | "i = 5" | "i = 6"
    by linarith
  then show ?thesis
  proof cases
    case 1
    then show ?thesis
      unfolding invertedRun_def Let_def by (simp only: nth_Cons_0 nth_Cons_Suc) (rule step.driver_queue)
  next
    case 2
    then show ?thesis
      unfolding invertedRun_def Let_def
      by (simp only: nth_Cons_0 nth_Cons_Suc One_nat_def) (rule step.driver_queue)
  next
    case 3
    then have i: "i = Suc (Suc 0)" by simp
    show ?thesis
      unfolding invertedRun_def Let_def i
      by (simp only: nth_Cons_0 nth_Cons_Suc, rule step.worker_pop)
         (simp_all add: idleManager_def queueSubRect_def)
  next
    case 4
    then have i: "i = Suc (Suc (Suc 0))" by simp
    show ?thesis
      unfolding invertedRun_def Let_def i
      by (simp only: nth_Cons_0 nth_Cons_Suc, rule step.worker_pop)
         (simp_all add: idleManager_def queueSubRect_def)
  next
    case 5
    then have i: "i = Suc (Suc (Suc (Suc 0)))" by simp
    show ?thesis
      unfolding invertedRun_def Let_def i
      by (simp only: nth_Cons_0 nth_Cons_Suc,
          rule step.worker_own [where t = 1 and e = "\<lparr>rect = rectB, pb = ()\<rparr>"])
         (simp_all add: idleManager_def queueSubRect_def demoEnv_def prepOf_def prepOf_type [unfolded prepOf_def]
            allZRLE_def stockEncoders_def)
  next
    case 6
    then have i: "i = Suc (Suc (Suc (Suc (Suc 0))))" by simp
    show ?thesis
      unfolding invertedRun_def Let_def i
      by (simp only: nth_Cons_0 nth_Cons_Suc,
          rule step.worker_queue_behind [where t = 0 and e = "\<lparr>rect = rectA, pb = ()\<rparr>"])
         (simp_all add: idleManager_def queueSubRect_def demoEnv_def prepOf_def prepOf_type [unfolded prepOf_def]
            allZRLE_def stockEncoders_def)
  next
    case 7
    then have i: "i = Suc (Suc (Suc (Suc (Suc (Suc 0)))))" by simp
    show ?thesis
      unfolding invertedRun_def Let_def i
      by (simp only: nth_Cons_0 nth_Cons_Suc,
          rule step.owner_next [where t = 1 and q = "prepOf rectB" and rest = "[]"])
         (simp_all add: idleManager_def queueSubRect_def)
  qed
qed

lemma invertedRun_reachable_upto:
  "i \<le> 7 \<Longrightarrow> (step demoEnv)\<^sup>*\<^sup>* (idleManager allZRLE) (invertedRun ! i)"
proof (induction i)
  case 0
  show ?case by (simp add: invertedRun_def Let_def)
next
  case (Suc i)
  then have "(step demoEnv)\<^sup>*\<^sup>* (idleManager allZRLE) (invertedRun ! i)" by simp
  moreover have "step demoEnv (invertedRun ! i) (invertedRun ! Suc i)"
    using Suc.prems by (intro invertedRun_steps) simp
  ultimately show ?case by (rule rtranclp.rtrancl_into_rtrancl)
qed

lemma invertedRun_last:
  "map rect (workPushed (invertedRun ! 7)) = [rectA, rectB]"
  "classEncoded (invertedRun ! 7) encoderZRLE = [prepOf rectB, prepOf rectA]"
  "classQueued (invertedRun ! 7) encoderZRLE = [prepOf rectB, prepOf rectA]"
  "workers (invertedRun ! 7) 0 = Idle"
  "workers (invertedRun ! 7) 1 = EncodingOrdered encoderZRLE (prepOf rectA)"
  "activeEncoders (invertedRun ! 7) = allZRLE"
  by (simp_all add: invertedRun_def Let_def idleManager_def queueSubRect_def)

lemma invertedRun_middle:
  "encoderQueue (invertedRun ! 4) encoderZRLE = []"
  "encoderQueue (invertedRun ! 5) encoderZRLE = [prepOf rectB]"
  "workers (invertedRun ! 5) 1 = EncodingOrdered encoderZRLE (prepOf rectB)"
  "workers (invertedRun ! 6) 1 = EncodingOrdered encoderZRLE (prepOf rectB)"
  by (simp_all add: invertedRun_def Let_def idleManager_def queueSubRect_def)

text \<open>
  C9, as the claim words it (encoded in the order they were pushed onto the work queue),
  fails with two workers: in the run above \<open>rectA\<close> is pushed onto the work queue before
  \<open>rectB\<close>, both go to the ordered class ZRLE, and \<open>rectB\<close> is encoded before \<open>rectA\<close>.
\<close>

theorem ordered_class_work_order_counterexample:
  "(step demoEnv)\<^sup>*\<^sup>* (idleManager allZRLE) (invertedRun ! 7)
   \<and> map rect (workPushed (invertedRun ! 7)) = [rectA, rectB]
   \<and> map prep_rect (classEncoded (invertedRun ! 7) encoderZRLE) = [rectB, rectA]
   \<and> rectA \<noteq> rectB
   \<and> activeEncoders (invertedRun ! 7) (prep_type (prepOf rectA)) = encoderZRLE
   \<and> activeEncoders (invertedRun ! 7) (prep_type (prepOf rectB)) = encoderZRLE
   \<and> ordered (encoders demoEnv encoderZRLE)"
  using invertedRun_reachable_upto [of 7]
  by (simp add: invertedRun_last prepOf_rect allZRLE_def demoEnv_def stockEncoders_def
      rectA_def rectB_def)

text \<open>
  The theorem on that run: at its last state, worker 1 is the only encoder of ZRLE and
  holds the head of the queue; from the fourth state to the fifth, worker 1 becomes the
  owner by pushing onto the empty queue; from the sixth to the seventh, it goes on with
  the next entry.
\<close>

theorem ordered_class_exclusive_fifo_witness:
  "(step demoEnv)\<^sup>*\<^sup>* (idleManager allZRLE) (invertedRun ! 7)
   \<and> ordered (encoders demoEnv encoderZRLE)
   \<and> encodesFor (invertedRun ! 7) 1 encoderZRLE
   \<and> workers (invertedRun ! 7) 1 = EncodingOrdered encoderZRLE (prepOf rectA)
   \<and> workers (invertedRun ! 7) 0 = Idle
   \<and> hd (encoderQueue (invertedRun ! 7) encoderZRLE) = prepOf rectA
   \<and> classEncoded (invertedRun ! 7) encoderZRLE = [prepOf rectB, prepOf rectA]
   \<and> classEncoded (invertedRun ! 7) encoderZRLE @ tl (encoderQueue (invertedRun ! 7) encoderZRLE) =
       classQueued (invertedRun ! 7) encoderZRLE
   \<and> (step demoEnv)\<^sup>*\<^sup>* (idleManager allZRLE) (invertedRun ! 4)
   \<and> step demoEnv (invertedRun ! 4) (invertedRun ! 5)
   \<and> workers (invertedRun ! 5) 1 = EncodingOrdered encoderZRLE (prepOf rectB)
   \<and> encoderQueue (invertedRun ! 4) encoderZRLE = []
   \<and> encoderQueue (invertedRun ! 5) encoderZRLE = [prepOf rectB]
   \<and> (step demoEnv)\<^sup>*\<^sup>* (idleManager allZRLE) (invertedRun ! 6)
   \<and> step demoEnv (invertedRun ! 6) (invertedRun ! 7)
   \<and> workers (invertedRun ! 6) 1 = EncodingOrdered encoderZRLE (prepOf rectB)"
proof -
  have r: "(step demoEnv)\<^sup>*\<^sup>* (idleManager allZRLE) (invertedRun ! 7)"
    by (rule invertedRun_reachable_upto) simp
  have r4: "(step demoEnv)\<^sup>*\<^sup>* (idleManager allZRLE) (invertedRun ! 4)"
    by (rule invertedRun_reachable_upto) simp
  have r6: "(step demoEnv)\<^sup>*\<^sup>* (idleManager allZRLE) (invertedRun ! 6)"
    by (rule invertedRun_reachable_upto) simp
  have s45: "step demoEnv (invertedRun ! 4) (invertedRun ! 5)"
    using invertedRun_steps [of 4] by (simp add: eval_nat_numeral)
  have s67: "step demoEnv (invertedRun ! 6) (invertedRun ! 7)"
    using invertedRun_steps [of 6] by (simp add: eval_nat_numeral)
  have o: "ordered (encoders demoEnv encoderZRLE)"
    by (simp add: demoEnv_def stockEncoders_def)
  have e: "encodesFor (invertedRun ! 7) 1 encoderZRLE"
    using invertedRun_last(5,6) by (simp add: encodesFor_def allZRLE_def)
  from ordered_class_exclusive_fifo [OF r o] e
  obtain p rest where "workers (invertedRun ! 7) 1 = EncodingOrdered encoderZRLE p"
    and "encoderQueue (invertedRun ! 7) encoderZRLE = p # rest"
    by blast
  with invertedRun_last(5) have h: "hd (encoderQueue (invertedRun ! 7) encoderZRLE) = prepOf rectA"
    by simp
  from ordered_class_exclusive_fifo [OF r4 o] s45 invertedRun_middle(3)
  have "(\<exists>q. workers (invertedRun ! 4) 1 = EncodingOrdered encoderZRLE q)
        \<or> (encoderQueue (invertedRun ! 4) encoderZRLE = []
           \<and> encoderQueue (invertedRun ! 5) encoderZRLE = [prepOf rectB])"
    by blast
  moreover from ordered_class_exclusive_fifo [OF r6 o] s67 invertedRun_middle(4)
  have "(\<exists>p'. workers (invertedRun ! 7) 1 = EncodingOrdered encoderZRLE p')
        \<or> encoderQueue (invertedRun ! 7) encoderZRLE = []"
    by blast
  ultimately show ?thesis
    using ordered_class_exclusive_fifo [OF r o] r r4 r6 s45 s67 o e h invertedRun_last(2-5)
      invertedRun_middle
    by simp
qed

end
